theory Spec2Isabelle
  imports Complex_Main "HOL-Library.Sublist" "HOL-Library.Product_Lexorder"
begin

section \<open>Characters and strings\<close>

text \<open>
  A Python \<open>str\<close> is a sequence of Unicode code points. Labels are modelled as
  \<^typ>\<open>string\<close>, one \<^typ>\<open>char\<close> per code point, which covers the code points
  U+0000 to U+00FF. The character classes below are the ones Python 3 uses on that range:
  \<open>\s\<close> and \<open>str.strip()\<close> share one whitespace set, \<open>\d\<close> is the decimal digits,
  \<open>\w\<close> is \<open>str.isalnum()\<close> plus the underscore, and \<open>str.lower()\<close> maps one code
  point to one code point there.
\<close>

definition is_space :: "char \<Rightarrow> bool" where
  "is_space c =
     (let n = (of_char c :: nat)
      in (9 \<le> n \<and> n \<le> 13) \<or> (28 \<le> n \<and> n \<le> 32) \<or> n = 133 \<or> n = 160)"

definition is_digit :: "char \<Rightarrow> bool" where
  "is_digit c = (let n = (of_char c :: nat) in 48 \<le> n \<and> n \<le> 57)"

definition is_alnum :: "char \<Rightarrow> bool" where
  "is_alnum c =
     (let n = (of_char c :: nat)
      in (48 \<le> n \<and> n \<le> 57) \<or> (65 \<le> n \<and> n \<le> 90) \<or> (97 \<le> n \<and> n \<le> 122)
         \<or> n = 170 \<or> n = 178 \<or> n = 179 \<or> n = 181 \<or> n = 185 \<or> n = 186
         \<or> (188 \<le> n \<and> n \<le> 190) \<or> (192 \<le> n \<and> n \<le> 214)
         \<or> (216 \<le> n \<and> n \<le> 246) \<or> (248 \<le> n \<and> n \<le> 255))"

definition is_word :: "char \<Rightarrow> bool" where
  \<comment> \<open>the class \<open>\w\<close>\<close>
  "is_word c = (is_alnum c \<or> c = CHR ''_'')"

definition lower_chr :: "char \<Rightarrow> char" where
  "lower_chr c =
     (let n = (of_char c :: nat)
      in if (65 \<le> n \<and> n \<le> 90) \<or> (192 \<le> n \<and> n \<le> 214) \<or> (216 \<le> n \<and> n \<le> 222)
         then char_of (n + 32) else c)"

definition str_lower :: "string \<Rightarrow> string" where
  \<comment> \<open>\<open>text.lower()\<close>\<close>
  "str_lower s = map lower_chr s"

definition str_strip :: "string \<Rightarrow> string" where
  \<comment> \<open>\<open>text.strip()\<close>\<close>
  "str_strip s = rev (dropWhile is_space (rev (dropWhile is_space s)))"

definition slice :: "'a list \<Rightarrow> nat \<Rightarrow> nat \<Rightarrow> 'a list" where
  \<comment> \<open>\<open>s[lo:hi]\<close> for indices that are not negative\<close>
  "slice s lo hi = take (hi - lo) (drop lo s)"

section \<open>Cell values and their string form\<close>

text \<open>
  \<open>normalize_text\<close> accepts any cell value. The values modelled are text, integers,
  booleans and \<open>None\<close>; \<open>py_str\<close> is Python's \<open>str()\<close> on them.
\<close>

datatype pyval = PStr string | PInt int | PBool bool | PNone

function str_nat :: "nat \<Rightarrow> string" where
  "str_nat n =
     (if n < 10 then [char_of (48 + n)]
      else str_nat (n div 10) @ [char_of (48 + n mod 10)])"
  by pat_completeness auto
termination
  by (relation "measure id") auto

definition str_int :: "int \<Rightarrow> string" where
  "str_int i = (if i < 0 then CHR ''-'' # str_nat (nat (- i)) else str_nat (nat i))"

fun py_str :: "pyval \<Rightarrow> string" where
  "py_str (PStr s) = s"
| "py_str (PInt i) = str_int i"
| "py_str (PBool b) = (if b then ''True'' else ''False'')"
| "py_str PNone = ''None''"

fun isinstance_str :: "pyval \<Rightarrow> bool" where
  "isinstance_str (PStr s) = True"
| "isinstance_str v = False"

section \<open>The regular-expression substitutions of \<open>normalize_text\<close>\<close>

text \<open>
  \<open>re.sub(r'(?<![\d])\.(?![\d])', '', text)\<close>: a period is deleted when the character before
  it is not a digit (or there is none) and the character after it is not a digit (or there
  is none). Both look-arounds read the original text. The first argument says whether the
  character before the current position is a digit.
\<close>

fun sub_period :: "bool \<Rightarrow> string \<Rightarrow> string" where
  "sub_period pd [] = []"
| "sub_period pd (c # cs) =
     (if c = CHR ''.'' \<and> \<not> pd \<and> \<not> (case cs of [] \<Rightarrow> False | d # _ \<Rightarrow> is_digit d)
      then sub_period (is_digit c) cs
      else c # sub_period (is_digit c) cs)"

text \<open>
  \<open>re.sub(r'\s*P\s*', repl, text)\<close> for a literal character \<open>P\<close>: scanning from the left,
  a match starts at the current position when the (greedy) run of whitespace there is
  followed by \<open>P\<close>; it then also takes the whitespace after \<open>P\<close>, and the scan goes on behind
  the match. Where no match starts, the character is copied and the scan moves on by one.
\<close>

function sub_paren :: "char \<Rightarrow> string \<Rightarrow> string \<Rightarrow> string" where
  "sub_paren p repl [] = []"
| "sub_paren p repl (c # cs) =
     (case dropWhile is_space (c # cs) of
        [] \<Rightarrow> c # sub_paren p repl cs
      | d # rest \<Rightarrow>
          if d = p then repl @ sub_paren p repl (dropWhile is_space rest)
          else c # sub_paren p repl cs)"
  by pat_completeness auto
termination
proof (relation "measure (\<lambda>(p, repl, s). length s)", goal_cases)
  case 1
  show ?case by simp
next
  case (2 p repl c cs)
  show ?case by simp
next
  case (3 p repl c cs d rest)
  have "length (dropWhile is_space rest) \<le> length rest"
    by (rule length_dropWhile_le)
  moreover have "length (d # rest) \<le> length (c # cs)"
    using 3(1) length_dropWhile_le [of is_space "c # cs"] by simp
  ultimately show ?case by simp
next
  case (4 p repl c cs d rest)
  show ?case by simp
qed

text \<open>\<open>re.sub(r'\s+', ' ', text)\<close>: every maximal run of whitespace becomes one space.\<close>

function sub_spaces :: "string \<Rightarrow> string" where
  "sub_spaces [] = []"
| "sub_spaces (c # cs) =
     (if is_space c then CHR '' '' # sub_spaces (dropWhile is_space cs)
      else c # sub_spaces cs)"
  by pat_completeness auto
termination
proof (relation "measure length", goal_cases)
  case 1
  show ?case by simp
next
  case (2 c cs)
  show ?case using length_dropWhile_le [of is_space cs] by simp
next
  case (3 c cs)
  show ?case by simp
qed

section \<open>\<open>normalize_text\<close> and \<open>are_case_variants\<close>\<close>

definition normalize_str :: "string \<Rightarrow> string" where
  \<comment> \<open>the body of \<open>normalize_text\<close> behind the \<open>isinstance\<close> guard\<close>
  "normalize_str text0 =
     (let text1 = str_strip (str_lower text0);
          text2 = sub_period False text1;
          text3 = sub_paren (CHR ''('') '' ('' text2;
          text4 = sub_paren (CHR '')'') '') '' text3;
          text5 = sub_spaces text4
      in str_strip text5)"

definition normalize_text :: "pyval \<Rightarrow> string" where
  "normalize_text text =
     (if \<not> isinstance_str text then py_str text
      else normalize_str (py_str text))"

definition are_case_variants :: "string \<Rightarrow> string \<Rightarrow> bool" where
  \<comment> \<open>\<open>re.sub(r'[^\w\s]', '', attr)\<close> deletes every character that is neither in \<open>\w\<close> nor
      in \<open>\s\<close>\<close>
  "are_case_variants attr1 attr2 =
     (let clean1 = str_lower (filter (\<lambda>c. is_word c \<or> is_space c) attr1);
          clean2 = str_lower (filter (\<lambda>c. is_word c \<or> is_space c) attr2)
      in clean1 = clean2 \<and> attr1 \<noteq> attr2)"

section \<open>\<open>find_similar_attributes\<close>\<close>

text \<open>
  The data frame read from the file is a list of columns; a cell of the label column is a
  text or missing (\<open>None\<close>, what pandas reads as NaN). \<open>df.iloc[:, 0]\<close> raises
  \<open>IndexError\<close> on a frame without columns; the function raises nothing else itself.
  \<open>fuzz.ratio\<close> belongs to the library \<open>thefuzz\<close> and is a parameter of the model.
  The threshold is a float that is compared with integer scores; the comparison is exact,
  so the threshold is a real number here.
\<close>

datatype error = IndexError

type_synonym cell = "string option"
type_synonym frame = "cell list list"
type_synonym groups = "(string \<times> (string \<times> int) list) list"

definition iloc_col0 :: "frame \<Rightarrow> error + cell list" where
  \<comment> \<open>\<open>df.iloc[:, 0]\<close>\<close>
  "iloc_col0 df = (case df of [] \<Rightarrow> Inl IndexError | col # _ \<Rightarrow> Inr col)"

fun dropna :: "cell list \<Rightarrow> string list" where
  "dropna [] = []"
| "dropna (None # cs) = dropna cs"
| "dropna (Some s # cs) = s # dropna cs"

fun unique_from :: "'a list \<Rightarrow> 'a list \<Rightarrow> 'a list" where
  \<comment> \<open>the values not seen before, in order of first appearance\<close>
  "unique_from seen [] = []"
| "unique_from seen (x # xs) =
     (if x \<in> set seen then unique_from seen xs else x # unique_from (x # seen) xs)"

definition unique :: "'a list \<Rightarrow> 'a list" where
  "unique xs = unique_from [] xs"

text \<open>
  \<open>similar_groups\<close> is a \<open>defaultdict(list)\<close>: a dictionary in insertion order, in which
  a key appears with its first \<open>append\<close>.
\<close>

fun append_group :: "groups \<Rightarrow> string \<Rightarrow> string \<times> int \<Rightarrow> groups" where
  \<comment> \<open>\<open>similar_groups[k].append(v)\<close>\<close>
  "append_group [] k v = [(k, [v])]"
| "append_group ((k', vs) # g) k v =
     (if k' = k then (k', vs @ [v]) # g else (k', vs) # append_group g k v)"

fun inner_loop ::
  "(string \<Rightarrow> string \<Rightarrow> int) \<Rightarrow> real \<Rightarrow> string \<Rightarrow> string \<Rightarrow> string list \<Rightarrow> groups \<Rightarrow> groups"
where
  \<comment> \<open>\<open>for attr2 in attributes[i+1:]\<close>\<close>
  "inner_loop ratio similarity_threshold attr1 base_normalized [] similar_groups =
     similar_groups"
| "inner_loop ratio similarity_threshold attr1 base_normalized (attr2 # rest) similar_groups =
     (if attr1 = attr2
      then inner_loop ratio similarity_threshold attr1 base_normalized rest similar_groups
      else if are_case_variants attr1 attr2
      then inner_loop ratio similarity_threshold attr1 base_normalized rest
             (append_group similar_groups attr1 (attr2, 100))
      else
        let compare_normalized = normalize_text (PStr attr2);
            similarity = ratio base_normalized compare_normalized
        in if of_int similarity \<ge> similarity_threshold
           then inner_loop ratio similarity_threshold attr1 base_normalized rest
                  (append_group similar_groups attr1 (attr2, similarity))
           else inner_loop ratio similarity_threshold attr1 base_normalized rest
                  similar_groups)"

fun outer_loop ::
  "(string \<Rightarrow> string \<Rightarrow> int) \<Rightarrow> real \<Rightarrow> string list \<Rightarrow> groups \<Rightarrow> groups"
where
  \<comment> \<open>\<open>for i, attr1 in enumerate(attributes)\<close>\<close>
  "outer_loop ratio similarity_threshold [] similar_groups = similar_groups"
| "outer_loop ratio similarity_threshold (attr1 # rest) similar_groups =
     (let base_normalized = normalize_text (PStr attr1)
      in outer_loop ratio similarity_threshold rest
           (inner_loop ratio similarity_threshold attr1 base_normalized rest similar_groups))"

definition find_similar_attributes ::
  "(string \<Rightarrow> string \<Rightarrow> int) \<Rightarrow> frame \<Rightarrow> real \<Rightarrow> error + groups"
where
  "find_similar_attributes ratio df similarity_threshold =
     (case iloc_col0 df of
        Inl e \<Rightarrow> Inl e
      | Inr col \<Rightarrow>
          let attributes = unique (dropna col)
          in Inr (outer_loop ratio similarity_threshold attributes []))"

section \<open>\<open>difflib.SequenceMatcher\<close>\<close>

text \<open>
  \<open>find_differences\<close> builds \<open>difflib.SequenceMatcher(None, str1, str2)\<close>: no junk function,
  \<open>autojunk\<close> at its default. \<open>b2j\<close> maps a character to the ascending list of its
  positions in \<open>b\<close>; when \<open>b\<close> has 200 characters or more, the characters that occur more
  than \<open>n // 100 + 1\<close> times are popular and lose their entry. The junk set is empty.
\<close>

definition popular :: "string \<Rightarrow> char \<Rightarrow> bool" where
  "popular b elt =
     (let n = length b; ntest = n div 100 + 1
      in n \<ge> 200 \<and> count_list b elt > ntest)"

definition b2j :: "string \<Rightarrow> char \<Rightarrow> nat list" where
  \<comment> \<open>\<open>b2j.get(elt, [])\<close>\<close>
  "b2j b elt = (if popular b elt then [] else filter (\<lambda>j. b ! j = elt) [0..<length b])"

definition isbjunk :: "char \<Rightarrow> bool" where
  "isbjunk c = False"

text \<open>
  The inner loop of \<open>find_longest_match\<close>, \<open>for j in b2j.get(a[i], nothing)\<close>. The state
  is \<open>newj2len\<close> and the best match so far. \<open>j2len.get(j-1, 0)\<close> at \<open>j = 0\<close> asks for
  the key \<open>-1\<close>, which is never present; \<open>i-k+1\<close> is written \<open>i + 1 - k\<close>, since
  \<open>k \<le> i + 1\<close> and subtraction on naturals truncates.
\<close>

type_synonym best = "nat \<times> nat \<times> nat"

definition j2lenget :: "(nat \<rightharpoonup> nat) \<Rightarrow> nat \<Rightarrow> nat" where
  \<comment> \<open>\<open>j2len.get(j-1, 0)\<close>\<close>
  "j2lenget j2len j = (if j = 0 then 0 else case j2len (j - 1) of None \<Rightarrow> 0 | Some v \<Rightarrow> v)"

fun j_loop ::
  "nat \<Rightarrow> nat \<Rightarrow> nat \<Rightarrow> (nat \<rightharpoonup> nat) \<Rightarrow> nat list \<Rightarrow> (nat \<rightharpoonup> nat) \<times> best \<Rightarrow> (nat \<rightharpoonup> nat) \<times> best"
where
  "j_loop blo bhi i j2len [] st = st"
| "j_loop blo bhi i j2len (j # js) (newj2len, besti, bestj, bestsize) =
     (if j < blo then j_loop blo bhi i j2len js (newj2len, besti, bestj, bestsize)
      else if j \<ge> bhi then (newj2len, besti, bestj, bestsize)
      else
        let k = j2lenget j2len j + 1
        in if k > bestsize
           then j_loop blo bhi i j2len js (newj2len(j \<mapsto> k), i + 1 - k, j + 1 - k, k)
           else j_loop blo bhi i j2len js (newj2len(j \<mapsto> k), besti, bestj, bestsize))"

fun i_loop ::
  "string \<Rightarrow> string \<Rightarrow> nat \<Rightarrow> nat \<Rightarrow> nat list \<Rightarrow> (nat \<rightharpoonup> nat) \<times> best \<Rightarrow> best"
where
  \<comment> \<open>\<open>for i in range(alo, ahi)\<close>\<close>
  "i_loop a b blo bhi [] (j2len, bst) = bst"
| "i_loop a b blo bhi (i # is) (j2len, bst) =
     i_loop a b blo bhi is (j_loop blo bhi i j2len (b2j b (a ! i)) (Map.empty, bst))"

text \<open>
  The four \<open>while\<close> loops that extend the best match: to the left and to the right over
  characters that are not junk, then over junk. \<open>junk\<close> is the value the loop asks of
  \<open>isbjunk\<close>.
\<close>

function extend_left :: "string \<Rightarrow> string \<Rightarrow> nat \<Rightarrow> nat \<Rightarrow> bool \<Rightarrow> best \<Rightarrow> best" where
  "extend_left a b alo blo junk (besti, bestj, bestsize) =
     (if besti > alo \<and> bestj > blo \<and> isbjunk (b ! (bestj - 1)) = junk
         \<and> a ! (besti - 1) = b ! (bestj - 1)
      then extend_left a b alo blo junk (besti - 1, bestj - 1, bestsize + 1)
      else (besti, bestj, bestsize))"
  by pat_completeness auto
termination
  by (relation "measure (\<lambda>(a, b, alo, blo, junk, besti, bestj, bestsize). besti)") auto

function extend_right :: "string \<Rightarrow> string \<Rightarrow> nat \<Rightarrow> nat \<Rightarrow> bool \<Rightarrow> best \<Rightarrow> best" where
  "extend_right a b ahi bhi junk (besti, bestj, bestsize) =
     (if besti + bestsize < ahi \<and> bestj + bestsize < bhi
         \<and> isbjunk (b ! (bestj + bestsize)) = junk
         \<and> a ! (besti + bestsize) = b ! (bestj + bestsize)
      then extend_right a b ahi bhi junk (besti, bestj, bestsize + 1)
      else (besti, bestj, bestsize))"
  by pat_completeness auto
termination
  by (relation "measure (\<lambda>(a, b, ahi, bhi, junk, besti, bestj, bestsize). ahi - (besti + bestsize))")
     auto

definition find_longest_match :: "string \<Rightarrow> string \<Rightarrow> nat \<Rightarrow> nat \<Rightarrow> nat \<Rightarrow> nat \<Rightarrow> best" where
  "find_longest_match a b alo ahi blo bhi =
     (let best0 = i_loop a b blo bhi [alo..<ahi] (Map.empty, (alo, blo, 0));
          best1 = extend_left a b alo blo False best0;
          best2 = extend_right a b ahi bhi False best1;
          best3 = extend_left a b alo blo True best2
      in extend_right a b ahi bhi True best3)"

text \<open>
  The match that \<open>find_longest_match\<close> returns lies inside the window it was asked to
  search; this is what makes the work list of \<open>get_matching_blocks\<close> shrink.
\<close>

definition in_box :: "nat \<Rightarrow> nat \<Rightarrow> nat \<Rightarrow> nat \<Rightarrow> best \<Rightarrow> bool" where
  "in_box alo ahi blo bhi bst =
     (case bst of (i, j, k) \<Rightarrow>
        alo \<le> i \<and> blo \<le> j
        \<and> (if k = 0 then i = alo \<and> j = blo else i + k \<le> ahi \<and> j + k \<le> bhi))"

declare extend_left.simps [simp del] extend_right.simps [simp del] str_nat.simps [simp del]

definition row_bounded :: "nat \<Rightarrow> nat \<Rightarrow> (nat \<rightharpoonup> nat) \<Rightarrow> bool" where
  "row_bounded n blo m = (\<forall>j k. m j = Some k \<longrightarrow> k \<le> n \<and> k \<le> j + 1 - blo \<and> blo \<le> j)"

lemma row_bounded_empty: "row_bounded n blo Map.empty"
  by (simp add: row_bounded_def)

lemma j2lenget_le:
  assumes "row_bounded n blo m" and "blo \<le> j"
  shows "j2lenget m j \<le> n" and "j2lenget m j \<le> j - blo"
proof -
  show "j2lenget m j \<le> n"
    using assms(1) by (auto simp: j2lenget_def row_bounded_def split: option.splits)
  show "j2lenget m j \<le> j - blo"
  proof (cases "j = 0")
    case True
    then show ?thesis by (simp add: j2lenget_def)
  next
    case False
    show ?thesis
    proof (cases "m (j - 1)")
      case None
      then show ?thesis by (simp add: j2lenget_def)
    next
      case (Some k)
      with assms(1) have "k \<le> (j - 1) + 1 - blo" "blo \<le> j - 1"
        by (auto simp: row_bounded_def)
      with False Some show ?thesis by (simp add: j2lenget_def)
    qed
  qed
qed

lemma j_loop_bounds:
  assumes "row_bounded (i - alo) blo m" and "alo \<le> i" and "i < ahi"
    and "row_bounded (i + 1 - alo) blo new" and "in_box alo ahi blo bhi bst"
    and "j_loop blo bhi i m js (new, bst) = (new', bst')"
  shows "row_bounded (i + 1 - alo) blo new' \<and> in_box alo ahi blo bhi bst'"
  using assms(4-6)
proof (induction js arbitrary: new bst)
  case Nil
  then show ?case by simp
next
  case (Cons j js)
  obtain bi bj bs where bst: "bst = (bi, bj, bs)" by (cases bst) auto
  show ?case
  proof (cases "j < blo")
    case True
    with Cons bst show ?thesis by simp
  next
    case lo: False
    show ?thesis
    proof (cases "j \<ge> bhi")
      case True
      with lo Cons bst show ?thesis by simp
    next
      case hi: False
      define k where "k = j2lenget m j + 1"
      have k1: "k \<le> i + 1 - alo" and k2: "k \<le> j + 1 - blo" and k0: "k \<noteq> 0"
        using j2lenget_le [OF assms(1), of j] lo assms(2) by (auto simp: k_def)
      have new: "row_bounded (i + 1 - alo) blo (new(j \<mapsto> k))"
        using Cons.prems(1) k1 k2 lo by (auto simp: row_bounded_def)
      have w: "in_box alo ahi blo bhi (i + 1 - k, j + 1 - k, k)"
        using k1 k2 k0 lo hi assms(2,3) by (auto simp: in_box_def)
      show ?thesis
      proof (cases "k > bs")
        case True
        with Cons.prems(3) lo hi bst
        have "j_loop blo bhi i m js (new(j \<mapsto> k), i + 1 - k, j + 1 - k, k) = (new', bst')"
          by (simp add: k_def Let_def)
        from Cons.IH [OF new w this] show ?thesis .
      next
        case False
        with Cons.prems(3) lo hi bst
        have "j_loop blo bhi i m js (new(j \<mapsto> k), bst) = (new', bst')"
          by (simp add: k_def Let_def)
        from Cons.IH [OF new Cons.prems(2) this] show ?thesis .
      qed
    qed
  qed
qed

lemma i_loop_bounds:
  assumes "alo \<le> i0" and "row_bounded (i0 - alo) blo m" and "in_box alo ahi blo bhi bst"
  shows "in_box alo ahi blo bhi (i_loop a b blo bhi [i0..<ahi] (m, bst))"
  using assms
proof (induction "ahi - i0" arbitrary: i0 m bst)
  case 0
  then show ?case by simp
next
  case (Suc n)
  then have lt: "i0 < ahi" by simp
  obtain new' bst' where st: "j_loop blo bhi i0 m (b2j b (a ! i0)) (Map.empty, bst) = (new', bst')"
    by (cases "j_loop blo bhi i0 m (b2j b (a ! i0)) (Map.empty, bst)") auto
  from j_loop_bounds [OF Suc.prems(2) Suc.prems(1) lt row_bounded_empty Suc.prems(3) st]
  have r: "row_bounded (Suc i0 - alo) blo new'" and w: "in_box alo ahi blo bhi bst'" by simp_all
  have "in_box alo ahi blo bhi (i_loop a b blo bhi [Suc i0..<ahi] (new', bst'))"
    using Suc.hyps(1) [of "Suc i0" new' bst'] Suc.hyps(2) Suc.prems(1) r w by simp
  with lt st show ?case by (simp add: upt_conv_Cons)
qed

lemma extend_left_bounds:
  "in_box alo ahi blo bhi bst \<Longrightarrow> in_box alo ahi blo bhi (extend_left a b alo blo junk bst)"
proof (induction a b alo blo junk bst rule: extend_left.induct)
  case (1 a b alo blo junk besti bestj bestsize)
  show ?case
  proof (cases "besti > alo \<and> bestj > blo \<and> isbjunk (b ! (bestj - 1)) = junk
         \<and> a ! (besti - 1) = b ! (bestj - 1)")
    case True
    have "in_box alo ahi blo bhi (besti - 1, bestj - 1, bestsize + 1)"
      using "1.prems" True by (auto simp: in_box_def split: if_splits)
    moreover have "extend_left a b alo blo junk (besti, bestj, bestsize)
        = extend_left a b alo blo junk (besti - 1, bestj - 1, bestsize + 1)"
      by (subst extend_left.simps) (use True in auto)
    ultimately show ?thesis using "1.IH" [OF True] by simp
  next
    case False
    have "extend_left a b alo blo junk (besti, bestj, bestsize) = (besti, bestj, bestsize)"
      by (subst extend_left.simps) (simp only: False if_False)
    with "1.prems" show ?thesis by simp
  qed
qed

lemma extend_right_bounds:
  "in_box alo ahi blo bhi bst \<Longrightarrow> in_box alo ahi blo bhi (extend_right a b ahi bhi junk bst)"
proof (induction a b ahi bhi junk bst rule: extend_right.induct)
  case (1 a b ahi bhi junk besti bestj bestsize)
  show ?case
  proof (cases "besti + bestsize < ahi \<and> bestj + bestsize < bhi
         \<and> isbjunk (b ! (bestj + bestsize)) = junk
         \<and> a ! (besti + bestsize) = b ! (bestj + bestsize)")
    case True
    have "in_box alo ahi blo bhi (besti, bestj, bestsize + 1)"
      using "1.prems" True by (auto simp: in_box_def split: if_splits)
    moreover have "extend_right a b ahi bhi junk (besti, bestj, bestsize)
        = extend_right a b ahi bhi junk (besti, bestj, bestsize + 1)"
      by (subst extend_right.simps) (use True in auto)
    ultimately show ?thesis using "1.IH" [OF True] by simp
  next
    case False
    have "extend_right a b ahi bhi junk (besti, bestj, bestsize) = (besti, bestj, bestsize)"
      by (subst extend_right.simps) (simp only: False if_False)
    with "1.prems" show ?thesis by simp
  qed
qed

lemma find_longest_match_bounds:
  "in_box alo ahi blo bhi (find_longest_match a b alo ahi blo bhi)"
proof -
  have "in_box alo ahi blo bhi (i_loop a b blo bhi [alo..<ahi] (Map.empty, (alo, blo, 0)))"
    by (rule i_loop_bounds) (simp_all add: row_bounded_def in_box_def)
  then show ?thesis
    unfolding find_longest_match_def Let_def
    by (intro extend_right_bounds extend_left_bounds)
qed

text \<open>
  \<open>get_matching_blocks\<close>: the work list \<open>queue\<close> is a stack (\<open>queue.pop()\<close> takes the element
  appended last), so the head of the list below is the end of the Python list.
\<close>

function queue_loop ::
  "string \<Rightarrow> string \<Rightarrow> (nat \<times> nat \<times> nat \<times> nat) list \<Rightarrow> best list \<Rightarrow> best list"
where
  "queue_loop a b [] matching_blocks = matching_blocks"
| "queue_loop a b ((alo, ahi, blo, bhi) # queue) matching_blocks =
     (case find_longest_match a b alo ahi blo bhi of
        (i, j, k) \<Rightarrow>
          if k \<noteq> 0
          then queue_loop a b
                 ((if i + k < ahi \<and> j + k < bhi then [(i + k, ahi, j + k, bhi)] else [])
                  @ (if alo < i \<and> blo < j then [(alo, i, blo, j)] else [])
                  @ queue)
                 (matching_blocks @ [(i, j, k)])
          else queue_loop a b queue matching_blocks)"
  by pat_completeness auto
termination
proof (relation "measure (\<lambda>(a, b, queue, mb).
          sum_list (map (\<lambda>(alo, ahi, blo, bhi). 2 * (ahi - alo) + 1) queue))", goal_cases)
  case 1
  show ?case by simp
next
  case (2 a b alo ahi blo bhi queue matching_blocks i y j k)
  have eq: "find_longest_match a b alo ahi blo bhi = (i, j, k)"
    by (simp only: 2(1) [symmetric] 2(2) [symmetric])
  have "in_box alo ahi blo bhi (i, j, k)"
    using find_longest_match_bounds [of alo ahi blo bhi a b] by (simp only: eq)
  with 2(3) have "alo \<le> i" "i + k \<le> ahi" "0 < k"
    by (simp_all add: in_box_def)
  then show ?case by auto
next
  case (3 a b alo ahi blo bhi queue matching_blocks i y j k)
  show ?case by simp
qed

fun collapse :: "best \<Rightarrow> best list \<Rightarrow> best list" where
  \<comment> \<open>the loop that merges adjacent blocks; the first argument is \<open>(i1, j1, k1)\<close>\<close>
  "collapse (i1, j1, k1) [] = (if k1 \<noteq> 0 then [(i1, j1, k1)] else [])"
| "collapse (i1, j1, k1) ((i2, j2, k2) # rest) =
     (if i1 + k1 = i2 \<and> j1 + k1 = j2 then collapse (i1, j1, k1 + k2) rest
      else (if k1 \<noteq> 0 then [(i1, j1, k1)] else []) @ collapse (i2, j2, k2) rest)"

definition get_matching_blocks :: "string \<Rightarrow> string \<Rightarrow> best list" where
  "get_matching_blocks a b =
     (let la = length a; lb = length b;
          matching_blocks = sort (queue_loop a b [(0, la, 0, lb)] []);
          non_adjacent = collapse (0, 0, 0) matching_blocks
      in non_adjacent @ [(la, lb, 0)])"

section \<open>\<open>find_differences\<close> and the difference text\<close>

fun blocks_loop :: "string \<Rightarrow> string \<Rightarrow> nat \<Rightarrow> nat \<Rightarrow> best list \<Rightarrow> (string \<times> string) list" where
  \<comment> \<open>\<open>for block in blocks\<close>, from \<open>last_end1\<close> and \<open>last_end2\<close>\<close>
  "blocks_loop str1 str2 last_end1 last_end2 [] = []"
| "blocks_loop str1 str2 last_end1 last_end2 ((i, j, sz) # blocks) =
     (if i > last_end1 \<or> j > last_end2
      then [(slice str1 last_end1 i, slice str2 last_end2 j)] else [])
     @ blocks_loop str1 str2 (i + sz) (j + sz) blocks"

definition find_differences :: "string \<Rightarrow> string \<Rightarrow> (string \<times> string) list" where
  "find_differences str1 str2 = blocks_loop str1 str2 0 0 (get_matching_blocks str1 str2)"

text \<open>
  \<open>" vs ".join([f"{d1} \<rightarrow> {d2}" for d1, d2 in diffs if d1 or d2])\<close>, as \<open>export_to_excel\<close>
  and the application build it. The arrow is U+2192, outside the range of \<^typ>\<open>char\<close>,
  so the rendered text is a list of code points.
\<close>

definition codes :: "string \<Rightarrow> nat list" where
  "codes s = map of_char s"

fun join :: "'a list \<Rightarrow> 'a list list \<Rightarrow> 'a list" where
  \<comment> \<open>\<open>sep.join(items)\<close>\<close>
  "join sep [] = []"
| "join sep [x] = x"
| "join sep (x # y # ys) = x @ sep @ join sep (y # ys)"

definition diff_text :: "(string \<times> string) list \<Rightarrow> nat list" where
  "diff_text differences =
     join (codes '' vs '')
       (map (\<lambda>(d1, d2). codes d1 @ [32, 8594, 32] @ codes d2)
          (filter (\<lambda>(d1, d2). d1 \<noteq> [] \<or> d2 \<noteq> []) differences))"

section \<open>The similarity scorer\<close>

text \<open>
  Modelled from the spec: \<open>fuzz.ratio\<close> of the library \<open>thefuzz\<close>, which the sources import
  and do not contain. The spec gives it as
  \<open>100 \<times> (2 \<times> matchedCharacters) / (len(normA) + len(normB))\<close>, an integer, and admits
  every scorer built on the longest common subsequence that satisfies this formula:
  \<open>matchedCharacters\<close> is the length of a longest common subsequence of the two strings,
  the longest sequence of common characters in the order of both. \<open>lcs\<close> is that length by
  its recursion; \<open>lcs_rows\<close> computes the same number row by row, from the ends of the
  strings, and is what the scorer evaluates. The spec does not say how the quotient becomes
  an integer; it is rounded to the nearest integer here, a tie going to the even one, as
  Python's \<open>round\<close> does. Two empty strings score 100.
\<close>

fun lcs :: "'a list \<Rightarrow> 'a list \<Rightarrow> nat" where
  "lcs [] ys = 0"
| "lcs (x # xs) [] = 0"
| "lcs (x # xs) (y # ys) =
     (if x = y then Suc (lcs xs ys) else max (lcs (x # xs) ys) (lcs xs (y # ys)))"

fun lcs_row :: "'a \<Rightarrow> 'a list \<Rightarrow> nat list \<Rightarrow> nat list" where
  "lcs_row x [] prev = [0]"
| "lcs_row x (y # ys) prev =
     (let rest = lcs_row x ys (tl prev)
      in (if x = y then Suc (hd (tl prev)) else max (hd rest) (hd prev)) # rest)"

fun lcs_rows :: "'a list \<Rightarrow> 'a list \<Rightarrow> nat list" where
  "lcs_rows [] ys = replicate (Suc (length ys)) 0"
| "lcs_rows (x # xs) ys = lcs_row x ys (lcs_rows xs ys)"

definition matched_characters :: "string \<Rightarrow> string \<Rightarrow> nat" where
  "matched_characters a b = hd (lcs_rows a b)"

definition round_div :: "nat \<Rightarrow> nat \<Rightarrow> int" where
  "round_div n d =
     (let q = n div d; r = n mod d
      in if 2 * r < d then int q
         else if 2 * r > d then int q + 1
         else if even q then int q else int q + 1)"

definition fuzz_ratio :: "string \<Rightarrow> string \<Rightarrow> int" where
  "fuzz_ratio normA normB =
     (let len = length normA + length normB
      in if len = 0 then 100
         else round_div (100 * (2 * matched_characters normA normB)) len)"

section \<open>Auxiliary notions for the properties\<close>

text \<open>
  The (base, candidate, score) triples of a result, collected the way \<open>export_to_excel\<close>
  collects \<open>all_pairs\<close> before sorting.
\<close>

definition all_pairs :: "groups \<Rightarrow> (string \<times> string \<times> int) list" where
  "all_pairs similar_groups =
     concat (map (\<lambda>(base_attr, matches). map (\<lambda>(match, score). (base_attr, match, score)) matches)
               similar_groups)"

text \<open>The score a pair is recorded with, whenever it is recorded.\<close>

definition pair_score :: "(string \<Rightarrow> string \<Rightarrow> int) \<Rightarrow> string \<Rightarrow> string \<Rightarrow> int" where
  "pair_score ratio attr1 attr2 =
     (if are_case_variants attr1 attr2 then 100
      else ratio (normalize_text (PStr attr1)) (normalize_text (PStr attr2)))"

definition scored_by :: "(string \<Rightarrow> string \<Rightarrow> int) \<Rightarrow> groups \<Rightarrow> bool" where
  "scored_by ratio g = (\<forall>(b, c, s) \<in> set (all_pairs g). s = pair_score ratio b c)"

text \<open>
  The Case-Variant Detector in the words of the specification: every character that is
  not alphanumeric and not whitespace is removed, both strings are lowercased, and the
  cleaned forms must be equal while the raw strings differ.
\<close>

definition is_case_variant_spec :: "string \<Rightarrow> string \<Rightarrow> bool" where
  "is_case_variant_spec a b =
     (let cleanA = str_lower (filter (\<lambda>c. is_alnum c \<or> is_space c) a);
          cleanB = str_lower (filter (\<lambda>c. is_alnum c \<or> is_space c) b)
      in cleanA = cleanB \<and> a \<noteq> b)"

text \<open>
  Notions for the matching blocks and the scorer: every block ends inside the two strings;
  the lengths of the longest common subsequences of a string with the suffixes of another.
\<close>

definition ends_within :: "nat \<Rightarrow> nat \<Rightarrow> best list \<Rightarrow> bool" where
  "ends_within la lb blocks = (\<forall>(i, j, k) \<in> set blocks. i + k \<le> la \<and> j + k \<le> lb)"

fun lcs_suffixes :: "'a list \<Rightarrow> 'a list \<Rightarrow> nat list" where
  "lcs_suffixes xs [] = [lcs xs []]"
| "lcs_suffixes xs (y # ys) = lcs xs (y # ys) # lcs_suffixes xs ys"

text \<open>
  Notions for the Normalizer. A string is a run of whitespace followed by items, each a
  character that is not whitespace and the run of whitespace behind it; \<open>rend\<close> writes such
  a sequence out and \<open>regap\<close> replaces every run behind a character by a function of the
  character before it, the run and the character after it. The last four steps of
  \<open>normalize_text\<close> change the runs only: \<open>h3\<close> to \<open>h6\<close> say how, \<open>hG\<close> is their
  composition and \<open>finish\<close> the four steps together. \<open>dots_ok\<close> says that every period
  has a digit next to it.
\<close>

definition ws :: "string \<Rightarrow> bool" where
  "ws W = (\<forall>c \<in> set W. is_space c)"

fun wf_items :: "(char \<times> string) list \<Rightarrow> bool" where
  "wf_items [] = True"
| "wf_items ((t, W) # items) = (\<not> is_space t \<and> ws W \<and> wf_items items)"

fun rend :: "string \<Rightarrow> (char \<times> string) list \<Rightarrow> string" where
  "rend W [] = W"
| "rend W ((t, W') # items) = W @ t # rend W' items"

fun next_of :: "(char \<times> string) list \<Rightarrow> char option" where
  "next_of [] = None"
| "next_of ((t, W) # items) = Some t"

fun regap ::
  "(char option \<Rightarrow> string \<Rightarrow> char option \<Rightarrow> string) \<Rightarrow> (char \<times> string) list
     \<Rightarrow> (char \<times> string) list"
where
  "regap h [] = []"
| "regap h ((t, W) # items) = (t, h (Some t) W (next_of items)) # regap h items"

definition h3 :: "char option \<Rightarrow> string \<Rightarrow> char option \<Rightarrow> string" where
  "h3 prev W nxt =
     (if nxt = Some (CHR ''('') then '' '' else if prev = Some (CHR ''('') then [] else W)"

definition h4 :: "char option \<Rightarrow> string \<Rightarrow> char option \<Rightarrow> string" where
  "h4 prev W nxt =
     (if prev = Some (CHR '')'') then '' '' else if nxt = Some (CHR '')'') then [] else W)"

definition h5 :: "char option \<Rightarrow> string \<Rightarrow> char option \<Rightarrow> string" where
  "h5 prev W nxt = (if W = [] then [] else '' '')"

definition h6 :: "char option \<Rightarrow> string \<Rightarrow> char option \<Rightarrow> string" where
  "h6 prev W nxt = (if prev = None \<or> nxt = None then [] else W)"

definition hG :: "char option \<Rightarrow> string \<Rightarrow> char option \<Rightarrow> string" where
  "hG prev W nxt = h6 prev (h5 prev (h4 prev (h3 prev W nxt) nxt) nxt) nxt"

definition rstrip :: "string \<Rightarrow> string" where
  "rstrip s = rev (dropWhile is_space (rev s))"

definition finish :: "string \<Rightarrow> string" where
  "finish s = str_strip (sub_spaces (sub_paren (CHR '')'') '') '' (sub_paren (CHR ''('') '' ('' s)))"

definition next_digit :: "string \<Rightarrow> bool" where
  "next_digit cs = (case cs of [] \<Rightarrow> False | d # _ \<Rightarrow> is_digit d)"

fun dots_ok :: "bool \<Rightarrow> string \<Rightarrow> bool" where
  "dots_ok pd [] = True"
| "dots_ok pd (c # cs) = ((c = CHR ''.'' \<longrightarrow> pd \<or> next_digit cs) \<and> dots_ok (is_digit c) cs)"

fun pdig :: "char option \<Rightarrow> bool" where
  "pdig None = False"
| "pdig (Some c) = is_digit c"

section \<open>The Pairwise Matcher: errors and thresholds\<close>

text \<open>
  C1. The claim: an absent or empty label column makes \<open>find_similar_attributes\<close> fail with
  \<open>InvalidInputError\<close> instead of returning an empty result. On the code a column without
  any label gives the empty group mapping and no error.
\<close>

theorem empty_column_returns_empty_result:
  "find_similar_attributes fuzz_ratio [[None, None]] 80 = Inr []"
  by code_simp

text \<open>
  C1, as the code has it: without any column the positional lookup of the first column
  fails with \<open>IndexError\<close>; with a label column that holds no label the result is the empty
  group mapping, for every scorer and threshold.
\<close>

theorem find_similar_attributes_no_labels:
  "find_similar_attributes ratio [] t = Inl IndexError
   \<and> (dropna col = [] \<longrightarrow> find_similar_attributes ratio (col # cols) t = Inr [])"
  by (simp add: find_similar_attributes_def iloc_col0_def unique_def)

theorem find_similar_attributes_no_labels_witness:
  "dropna [None, None] = []
   \<and> find_similar_attributes fuzz_ratio [] 80 = Inl IndexError
   \<and> find_similar_attributes fuzz_ratio [[None, None]] 80 = Inr []"
  using find_similar_attributes_no_labels [of fuzz_ratio 80 "[None, None]" "[]"] by simp

text \<open>
  C9. The claim: a threshold outside 0..100 is rejected with \<open>InvalidThresholdError\<close>. On
  the code the threshold 150 is accepted and a result is returned.
\<close>

theorem threshold_150_not_rejected:
  "find_similar_attributes fuzz_ratio [[Some ''Color'', Some ''color'', Some ''Size'']] 150
     = Inr [(''Color'', [(''color'', 100)])]"
  by code_simp

subsection \<open>Threshold monotonicity\<close>

lemma set_all_pairs_append_group:
  "set (all_pairs (append_group g k v)) = insert (k, fst v, snd v) (set (all_pairs g))"
  by (induction g k v rule: append_group.induct) (auto simp: all_pairs_def)

lemma inner_loop_mono:
  "t1 \<le> t2 \<Longrightarrow> set (all_pairs g2) \<subseteq> set (all_pairs g1) \<Longrightarrow>
   set (all_pairs (inner_loop ratio t2 a n rest g2))
     \<subseteq> set (all_pairs (inner_loop ratio t1 a n rest g1))"
proof (induction rest arbitrary: g1 g2)
  case Nil
  then show ?case by simp
next
  case (Cons c rest)
  have ins: "\<And>v. set (all_pairs (append_group g2 a v)) \<subseteq> set (all_pairs (append_group g1 a v))"
    using Cons.prems(2) by (auto simp: set_all_pairs_append_group)
  have ins': "\<And>v. set (all_pairs g2) \<subseteq> set (all_pairs (append_group g1 a v))"
    using Cons.prems(2) by (auto simp: set_all_pairs_append_group)
  show ?case
    using Cons.IH [OF Cons.prems(1) Cons.prems(2)] Cons.IH [OF Cons.prems(1) ins]
      Cons.IH [OF Cons.prems(1) ins'] Cons.prems(1)
    by (auto simp: Let_def)
qed

lemma outer_loop_mono:
  "t1 \<le> t2 \<Longrightarrow> set (all_pairs g2) \<subseteq> set (all_pairs g1) \<Longrightarrow>
   set (all_pairs (outer_loop ratio t2 attrs g2))
     \<subseteq> set (all_pairs (outer_loop ratio t1 attrs g1))"
proof (induction attrs arbitrary: g1 g2)
  case Nil
  then show ?case by simp
next
  case (Cons a attrs)
  show ?case
    using Cons.IH [OF Cons.prems(1) inner_loop_mono [OF Cons.prems]]
    by (simp add: Let_def)
qed

lemma inner_loop_scored:
  "scored_by ratio g \<Longrightarrow>
   scored_by ratio (inner_loop ratio t a (normalize_text (PStr a)) rest g)"
proof (induction rest arbitrary: g)
  case Nil
  then show ?case by simp
next
  case (Cons c rest)
  have "\<And>s. s = pair_score ratio a c \<Longrightarrow> scored_by ratio (append_group g a (c, s))"
    using Cons.prems by (auto simp: scored_by_def set_all_pairs_append_group)
  then show ?case
    using Cons.IH Cons.prems by (auto simp: Let_def pair_score_def)
qed

lemma outer_loop_scored:
  "scored_by ratio g \<Longrightarrow> scored_by ratio (outer_loop ratio t attrs g)"
  by (induction attrs arbitrary: g) (auto simp: Let_def inner_loop_scored)

text \<open>
  C2. For thresholds \<open>0 \<le> t1 < t2 \<le> 100\<close> and every frame and scorer: either both calls
  fail in the same way, or both return, every (base, candidate, score) triple of the result
  at \<open>t2\<close> is a triple of the result at \<open>t1\<close>, and a pair present in both results has the same
  score in both.
\<close>

theorem threshold_monotonicity:
  assumes "0 \<le> t1" and "t1 < t2" and "t2 \<le> 100"
  shows "case (find_similar_attributes ratio df t1, find_similar_attributes ratio df t2) of
           (Inr g1, Inr g2) \<Rightarrow>
              set (all_pairs g2) \<subseteq> set (all_pairs g1)
              \<and> (\<forall>(b2, c2, s2) \<in> set (all_pairs g2). \<forall>(b1, c1, s1) \<in> set (all_pairs g1).
                    b1 = b2 \<and> c1 = c2 \<longrightarrow> s1 = s2)
         | (Inl e1, Inl e2) \<Rightarrow> e1 = e2
         | _ \<Rightarrow> False"
proof (cases df)
  case Nil
  then show ?thesis by (simp add: find_similar_attributes_def iloc_col0_def)
next
  case (Cons col cols)
  define attrs where "attrs = unique (dropna col)"
  have sub: "set (all_pairs (outer_loop ratio t2 attrs []))
               \<subseteq> set (all_pairs (outer_loop ratio t1 attrs []))"
    using assms(2) by (intro outer_loop_mono) simp_all
  have s1: "scored_by ratio (outer_loop ratio t1 attrs [])"
    and s2: "scored_by ratio (outer_loop ratio t2 attrs [])"
    by (rule outer_loop_scored, simp add: scored_by_def all_pairs_def)+
  have "\<forall>(b2, c2, s2) \<in> set (all_pairs (outer_loop ratio t2 attrs [])).
          \<forall>(b1, c1, s1) \<in> set (all_pairs (outer_loop ratio t1 attrs [])).
             b1 = b2 \<and> c1 = c2 \<longrightarrow> s1 = s2"
    using s1 s2 unfolding scored_by_def by fastforce
  with sub Cons show ?thesis
    by (simp add: find_similar_attributes_def iloc_col0_def attrs_def Let_def)
qed

theorem threshold_monotonicity_witness:
  "(0::real) \<le> 80 \<and> (80::real) < 95 \<and> (95::real) \<le> 100
   \<and> find_similar_attributes fuzz_ratio [[Some ''Color'', Some ''color'', Some ''Colour'']] 80
       = Inr [(''Color'', [(''color'', 100), (''Colour'', 91)]), (''color'', [(''Colour'', 91)])]
   \<and> find_similar_attributes fuzz_ratio [[Some ''Color'', Some ''color'', Some ''Colour'']] 95
       = Inr [(''Color'', [(''color'', 100)])]
   \<and> set (all_pairs [(''Color'', [(''color'', 100)])])
       \<subseteq> set (all_pairs [(''Color'', [(''color'', 100), (''Colour'', 91)]),
                           (''color'', [(''Colour'', 91)])])"
proof -
  have r1: "find_similar_attributes fuzz_ratio [[Some ''Color'', Some ''color'', Some ''Colour'']] 80
       = Inr [(''Color'', [(''color'', 100), (''Colour'', 91)]), (''color'', [(''Colour'', 91)])]"
    by code_simp
  have r2: "find_similar_attributes fuzz_ratio [[Some ''Color'', Some ''color'', Some ''Colour'']] 95
       = Inr [(''Color'', [(''color'', 100)])]"
    by code_simp
  show ?thesis
    using threshold_monotonicity [of 80 95 fuzz_ratio "[[Some ''Color'', Some ''color'', Some ''Colour'']]"]
    unfolding r1 r2 by simp
qed

subsection \<open>Thresholds outside the range\<close>

lemma inner_loop_threshold:
  "\<forall>(b, c, s) \<in> set (all_pairs g). are_case_variants b c \<or> t \<le> of_int s \<Longrightarrow>
   \<forall>(b, c, s) \<in> set (all_pairs (inner_loop ratio t a n rest g)).
      are_case_variants b c \<or> t \<le> of_int s"
proof (induction rest arbitrary: g)
  case Nil
  then show ?case by simp
next
  case (Cons c rest)
  have step: "\<forall>(b, c, s) \<in> set (all_pairs (append_group g a (c, s'))).
           are_case_variants b c \<or> t \<le> of_int s"
    if "are_case_variants a c \<or> t \<le> of_int s'" for s'
    using Cons.prems that by (auto simp: set_all_pairs_append_group)
  show ?case
  proof (cases "a = c")
    case True
    then show ?thesis using Cons.IH [OF Cons.prems] by simp
  next
    case ne: False
    show ?thesis
    proof (cases "are_case_variants a c")
      case True
      then show ?thesis using ne Cons.IH [OF step [of 100]] by simp
    next
      case cv: False
      show ?thesis
      proof (cases "t \<le> of_int (ratio n (normalize_text (PStr c)))")
        case True
        then show ?thesis using ne cv Cons.IH [OF step [of "ratio n (normalize_text (PStr c))"]]
          by (simp add: Let_def)
      next
        case False
        then show ?thesis using ne cv Cons.IH [OF Cons.prems] by (simp add: Let_def)
      qed
    qed
  qed
qed

lemma outer_loop_threshold:
  "\<forall>(b, c, s) \<in> set (all_pairs g). are_case_variants b c \<or> t \<le> of_int s \<Longrightarrow>
   \<forall>(b, c, s) \<in> set (all_pairs (outer_loop ratio t attrs g)).
      are_case_variants b c \<or> t \<le> of_int s"
proof (induction attrs arbitrary: g)
  case Nil
  then show ?case by simp
next
  case (Cons a attrs)
  show ?case
    using Cons.IH [OF inner_loop_threshold [OF Cons.prems]] by (simp add: Let_def)
qed

text \<open>
  C9, as the code has it: whenever the frame has a label column the call returns a result,
  whatever the threshold, in or out of 0..100; and the threshold is used as given, not
  clamped: every reported pair is a case variant or has a score that reaches the
  threshold itself.
\<close>

theorem threshold_never_rejected:
  "\<exists>g. find_similar_attributes ratio (col # cols) t = Inr g
       \<and> (\<forall>(b, c, s) \<in> set (all_pairs g). are_case_variants b c \<or> t \<le> of_int s)"
proof -
  have "\<forall>(b, c, s) \<in> set (all_pairs (outer_loop ratio t (unique (dropna col)) [])).
          are_case_variants b c \<or> t \<le> of_int s"
    by (rule outer_loop_threshold) (simp add: all_pairs_def)
  then show ?thesis
    by (simp add: find_similar_attributes_def iloc_col0_def Let_def)
qed

theorem threshold_never_rejected_witness:
  "find_similar_attributes fuzz_ratio [[Some ''Weight (kg)'', Some ''Weight(kg)'']] 100
     = Inr [(''Weight (kg)'', [(''Weight(kg)'', 100)])]
   \<and> find_similar_attributes fuzz_ratio [[Some ''Weight (kg)'', Some ''Weight(kg)'']] 101 = Inr []"
proof -
  have a: "find_similar_attributes fuzz_ratio [[Some ''Weight (kg)'', Some ''Weight(kg)'']] 100
     = Inr [(''Weight (kg)'', [(''Weight(kg)'', 100)])]" by code_simp
  have n: "\<not> are_case_variants ''Weight (kg)'' ''Weight(kg)''" by code_simp
  have r: "fuzz_ratio (normalize_text (PStr ''Weight (kg)'')) (normalize_text (PStr ''Weight(kg)'')) = 100"
    by code_simp
  have u: "unique [''Weight (kg)'', ''Weight(kg)''] = [''Weight (kg)'', ''Weight(kg)'']" by code_simp
  obtain g where g: "find_similar_attributes fuzz_ratio [[Some ''Weight (kg)'', Some ''Weight(kg)'']] 101 = Inr g"
    and ab: "\<forall>(b, c, s) \<in> set (all_pairs g). are_case_variants b c \<or> (101::real) \<le> of_int s"
    using threshold_never_rejected [of fuzz_ratio "[Some ''Weight (kg)'', Some ''Weight(kg)'']" "[]" 101]
    by blast
  have "g = []"
    using g by (simp add: find_similar_attributes_def iloc_col0_def u n r Let_def)
  with a g show ?thesis by simp
qed

section \<open>The end-to-end scenarios\<close>

lemma inner_loop_keeps:
  "set (all_pairs g) \<subseteq> set (all_pairs (inner_loop ratio t a n rest g))"
proof (induction rest arbitrary: g)
  case Nil
  show ?case by simp
next
  case (Cons c rest)
  have "set (all_pairs g) \<subseteq> set (all_pairs (append_group g a v))" for v
    by (auto simp: set_all_pairs_append_group)
  then show ?case
    using Cons [of g] Cons [of "append_group g a (c, 100)"]
      Cons [of "append_group g a (c, ratio n (normalize_text (PStr c)))"]
    by (simp add: Let_def) blast
qed

lemma outer_loop_keeps:
  "set (all_pairs g) \<subseteq> set (all_pairs (outer_loop ratio t attrs g))"
proof (induction attrs arbitrary: g)
  case Nil
  show ?case by simp
next
  case (Cons a attrs)
  show ?case
    using inner_loop_keeps [of g ratio t a "normalize_text (PStr a)" attrs]
      Cons [of "inner_loop ratio t a (normalize_text (PStr a)) attrs g"]
    by (auto simp: Let_def)
qed

lemma inner_loop_records:
  "c \<in> set rest \<Longrightarrow> are_case_variants a c \<Longrightarrow>
   (a, c, 100) \<in> set (all_pairs (inner_loop ratio t a n rest g))"
proof (induction rest arbitrary: g)
  case Nil
  then show ?case by simp
next
  case (Cons d rest)
  show ?case
  proof (cases "d = c")
    case True
    from Cons.prems(2) have ne: "a \<noteq> c" by (simp add: are_case_variants_def Let_def)
    have "(a, c, 100) \<in> set (all_pairs (append_group g a (c, 100)))"
      by (simp add: set_all_pairs_append_group)
    then have "(a, c, 100) \<in> set (all_pairs (inner_loop ratio t a n rest (append_group g a (c, 100))))"
      using inner_loop_keeps by blast
    with True ne Cons.prems(2) show ?thesis by simp
  next
    case False
    with Cons.prems have "c \<in> set rest" by simp
    note ih = Cons.IH [OF this Cons.prems(2)]
    show ?thesis
      using ih [of g] ih [of "append_group g a (d, 100)"]
        ih [of "append_group g a (d, ratio n (normalize_text (PStr d)))"]
      by (auto simp: Let_def)
  qed
qed

lemma outer_loop_records:
  "are_case_variants a c \<Longrightarrow>
   (a, c, 100) \<in> set (all_pairs (outer_loop ratio t (pre @ a # mid @ c # post) g))"
proof (induction pre arbitrary: g)
  case Nil
  have "(a, c, 100) \<in> set (all_pairs (inner_loop ratio t a (normalize_text (PStr a)) (mid @ c # post) g))"
    using Nil by (intro inner_loop_records) simp_all
  then show ?case
    using outer_loop_keeps [of "inner_loop ratio t a (normalize_text (PStr a)) (mid @ c # post) g"
        ratio t "mid @ c # post"]
    by (auto simp: Let_def)
next
  case (Cons p pre)
  from Cons.IH [OF Cons.prems] show ?case by (simp add: Let_def)
qed

text \<open>
  C5. For the labels Color, color, Size at threshold 80 the result is exactly the group of
  Color with the one match (color, 100), provided the scorer puts "color" and "size" below
  80 (the two comparisons that reach the scorer). And whenever \<open>are_case_variants\<close> accepts
  a pair: the loop records the candidate with score 100 under the base label without
  calling the scorer; and if the base label stands before the candidate among the distinct
  labels, the result of \<open>find_similar_attributes\<close> holds the pair with score 100 and with no
  other score, for every scorer and every threshold.
\<close>

theorem color_scenario_and_fast_path:
  "(of_int (ratio ''color'' ''size'') < (80::real) \<longrightarrow>
      find_similar_attributes ratio [[Some ''Color'', Some ''color'', Some ''Size'']] 80
        = Inr [(''Color'', [(''color'', 100)])])
   \<and> (are_case_variants attr1 attr2 \<longrightarrow>
        inner_loop ratio t attr1 bn (attr2 # rest) g
          = inner_loop ratio t attr1 bn rest (append_group g attr1 (attr2, 100)))
   \<and> (are_case_variants attr1 attr2
        \<and> unique (dropna col) = pre @ attr1 # mid @ attr2 # post \<longrightarrow>
        (\<exists>groups. find_similar_attributes ratio (col # cols) t = Inr groups
           \<and> (attr1, attr2, 100) \<in> set (all_pairs groups)
           \<and> (\<forall>s. (attr1, attr2, s) \<in> set (all_pairs groups) \<longrightarrow> s = 100)))"
proof (intro conjI impI)
  assume lt: "of_int (ratio ''color'' ''size'') < (80::real)"
  have n1: "normalize_text (PStr ''Color'') = ''color''" by code_simp
  have n2: "normalize_text (PStr ''color'') = ''color''" by code_simp
  have n3: "normalize_text (PStr ''Size'') = ''size''" by code_simp
  have v1: "are_case_variants ''Color'' ''color''" by code_simp
  have v2: "\<not> are_case_variants ''Color'' ''Size''" by code_simp
  have v3: "\<not> are_case_variants ''color'' ''Size''" by code_simp
  have u: "unique [''Color'', ''color'', ''Size''] = [''Color'', ''color'', ''Size'']"
    by code_simp
  show "find_similar_attributes ratio [[Some ''Color'', Some ''color'', Some ''Size'']] 80
       = Inr [(''Color'', [(''color'', 100)])]"
    using lt by (simp add: find_similar_attributes_def iloc_col0_def u n1 n2 n3 v1 v2 v3 Let_def)
next
  assume "are_case_variants attr1 attr2"
  then show "inner_loop ratio t attr1 bn (attr2 # rest) g
         = inner_loop ratio t attr1 bn rest (append_group g attr1 (attr2, 100))"
    by (auto simp: are_case_variants_def Let_def)
next
  assume a: "are_case_variants attr1 attr2
        \<and> unique (dropna col) = pre @ attr1 # mid @ attr2 # post"
  define groups where "groups = outer_loop ratio t (unique (dropna col)) []"
  have r: "find_similar_attributes ratio (col # cols) t = Inr groups"
    by (simp add: find_similar_attributes_def iloc_col0_def groups_def Let_def)
  have m: "(attr1, attr2, 100) \<in> set (all_pairs groups)"
    using a outer_loop_records [of attr1 attr2 ratio t pre mid post "[]"]
    by (simp add: groups_def)
  have "scored_by ratio groups"
    unfolding groups_def by (rule outer_loop_scored) (simp add: scored_by_def all_pairs_def)
  then have "\<forall>s. (attr1, attr2, s) \<in> set (all_pairs groups) \<longrightarrow> s = 100"
    using a by (auto simp: scored_by_def pair_score_def)
  with r m show "\<exists>groups. find_similar_attributes ratio (col # cols) t = Inr groups
           \<and> (attr1, attr2, 100) \<in> set (all_pairs groups)
           \<and> (\<forall>s. (attr1, attr2, s) \<in> set (all_pairs groups) \<longrightarrow> s = 100)"
    by blast
qed

theorem color_scenario_and_fast_path_witness:
  "of_int (fuzz_ratio ''color'' ''size'') < (80::real) \<and> are_case_variants ''Color'' ''color''
   \<and> unique (dropna [Some ''Color'', Some ''color'', Some ''Size''])
        = [] @ ''Color'' # [] @ ''color'' # [''Size'']
   \<and> find_similar_attributes fuzz_ratio [[Some ''Color'', Some ''color'', Some ''Size'']] 80
        = Inr [(''Color'', [(''color'', 100)])]
   \<and> inner_loop fuzz_ratio 80 ''Color'' ''color'' [''color''] [] = [(''Color'', [(''color'', 100)])]
   \<and> (''Color'', ''color'', 100) \<in> set (all_pairs [(''Color'', [(''color'', 100)])])"
proof -
  have h1: "of_int (fuzz_ratio ''color'' ''size'') < (80::real)"
  proof -
    have "fuzz_ratio ''color'' ''size'' = 0" by code_simp
    then show ?thesis by simp
  qed
  have h2: "are_case_variants ''Color'' ''color''" by code_simp
  have h3: "unique (dropna [Some ''Color'', Some ''color'', Some ''Size''])
        = [] @ ''Color'' # [] @ ''color'' # [''Size'']" by code_simp
  note t = color_scenario_and_fast_path [of fuzz_ratio "''Color''" "''color''" 80 "''color''" "[]" "[]"
      "[Some ''Color'', Some ''color'', Some ''Size'']" "[]" "[]" "[''Size'']" "[]"]
  from t h1 have r: "find_similar_attributes fuzz_ratio [[Some ''Color'', Some ''color'', Some ''Size'']] 80
        = Inr [(''Color'', [(''color'', 100)])]" by blast
  from t h2 have i: "inner_loop fuzz_ratio 80 ''Color'' ''color'' [''color''] []
        = inner_loop fuzz_ratio 80 ''Color'' ''color'' [] (append_group [] ''Color'' (''color'', 100))"
    by blast
  from t h2 h3 obtain groups where
    g: "find_similar_attributes fuzz_ratio [[Some ''Color'', Some ''color'', Some ''Size'']] 80 = Inr groups"
    and m: "(''Color'', ''color'', 100) \<in> set (all_pairs groups)" by blast
  from g r have "groups = [(''Color'', [(''color'', 100)])]" by simp
  with m have m': "(''Color'', ''color'', 100) \<in> set (all_pairs [(''Color'', [(''color'', 100)])])"
    by simp
  from i have i': "inner_loop fuzz_ratio 80 ''Color'' ''color'' [''color''] [] = [(''Color'', [(''color'', 100)])]"
    by simp
  from h1 h2 h3 r i' m' show ?thesis by blast
qed

text \<open>
  C3. The claim: for the labels "Country of Origin" and "Country of Origin." the rendered
  difference text is empty. \<open>find_differences\<close> compares the raw labels, so the trailing
  period is reported as a gap and the text is not empty.
\<close>

theorem country_of_origin_difference_text_not_empty:
  "diff_text (find_differences ''Country of Origin'' ''Country of Origin.'') \<noteq> []"
  by code_simp

text \<open>
  C3, as the code has it: at threshold 90 the pair is reported with score 100 (for every
  scorer, since the pair is a case variant), and the rendered difference text is
  \<open>" \<rightarrow> ."\<close>: an empty segment, the arrow U+2192 between two spaces, and the period.
\<close>

theorem country_of_origin_scenario:
  "find_similar_attributes ratio [[Some ''Country of Origin'', Some ''Country of Origin.'']] 90
     = Inr [(''Country of Origin'', [(''Country of Origin.'', 100)])]
   \<and> find_differences ''Country of Origin'' ''Country of Origin.'' = [('''', ''.'')]
   \<and> diff_text (find_differences ''Country of Origin'' ''Country of Origin.'')
       = [32, 8594, 32, 46]"
proof (intro conjI)
  have v: "are_case_variants ''Country of Origin'' ''Country of Origin.''" by code_simp
  have u: "unique [''Country of Origin'', ''Country of Origin.'']
      = [''Country of Origin'', ''Country of Origin.'']" by code_simp
  show "find_similar_attributes ratio [[Some ''Country of Origin'', Some ''Country of Origin.'']] 90
     = Inr [(''Country of Origin'', [(''Country of Origin.'', 100)])]"
    using v by (simp add: find_similar_attributes_def iloc_col0_def u Let_def)
  show "find_differences ''Country of Origin'' ''Country of Origin.'' = [('''', ''.'')]"
    by code_simp
  show "diff_text (find_differences ''Country of Origin'' ''Country of Origin.'')
       = [32, 8594, 32, 46]"
    by code_simp
qed

theorem country_of_origin_scenario_witness:
  "find_similar_attributes fuzz_ratio [[Some ''Country of Origin'', Some ''Country of Origin.'']] 90
     = Inr [(''Country of Origin'', [(''Country of Origin.'', 100)])]
   \<and> ([]::string) = [] \<and> ''.'' \<noteq> []
   \<and> diff_text [([], ''.'')] = [32, 8594, 32, 46]"
proof -
  note s = country_of_origin_scenario [of fuzz_ratio]
  have d: "find_differences ''Country of Origin'' ''Country of Origin.'' = [([], ''.'')]"
    using s by (rule conjunct2 [THEN conjunct1])
  have t: "diff_text (find_differences ''Country of Origin'' ''Country of Origin.'')
             = [32, 8594, 32, 46]"
    using s by (rule conjunct2 [THEN conjunct2])
  have "diff_text [([], ''.'')] = [32, 8594, 32, 46]"
    using t unfolding d .
  moreover have "find_similar_attributes fuzz_ratio
        [[Some ''Country of Origin'', Some ''Country of Origin.'']] 90
     = Inr [(''Country of Origin'', [(''Country of Origin.'', 100)])]"
    using s by (rule conjunct1)
  ultimately show ?thesis by simp
qed

section \<open>The Case-Variant Detector and the Normalizer\<close>

text \<open>
  C7. The claim: \<open>are_case_variants\<close> removes every character that is not alphanumeric and
  not whitespace. The class \<open>\w\<close> of the pattern also holds the underscore, which is
  therefore kept: "a_b" and "ab" are case variants in the words of the claim and are not
  for the code.
\<close>

theorem are_case_variants_keeps_underscore:
  "are_case_variants ''a_b'' ''ab'' \<noteq> is_case_variant_spec ''a_b'' ''ab''"
  by code_simp

text \<open>
  C7, as the code has it: \<open>are_case_variants a b\<close> holds if and only if the two strings are
  equal after removing every character that is not alphanumeric, not an underscore and not
  whitespace and lowercasing, and the raw strings differ.
\<close>

theorem are_case_variants_iff:
  "are_case_variants a b \<longleftrightarrow>
     str_lower (filter (\<lambda>c. is_alnum c \<or> c = CHR ''_'' \<or> is_space c) a)
       = str_lower (filter (\<lambda>c. is_alnum c \<or> c = CHR ''_'' \<or> is_space c) b)
     \<and> a \<noteq> b"
  by (simp add: are_case_variants_def is_word_def Let_def disj_assoc)

text \<open>
  C8. The claim: a value that is not a string is stringified and then normalized. The
  guard of \<open>normalize_text\<close> returns the string form as it is: \<open>True\<close> gives "True", whose
  normal form is "true".
\<close>

theorem normalize_text_bool_not_normalized:
  "normalize_text (PBool True) \<noteq> normalize_text (PStr (py_str (PBool True)))"
  by code_simp

text \<open>
  C8, as the code has it: for a value that is not a string, \<open>normalize_text\<close> returns its
  string form unchanged; no normalization step is applied.
\<close>

theorem normalize_text_non_string:
  "normalize_text (PInt i) = py_str (PInt i)
   \<and> normalize_text (PBool b) = py_str (PBool b)
   \<and> normalize_text PNone = py_str PNone"
  by (simp add: normalize_text_def)

section \<open>The matching blocks, the Difference Extractor and the scorer\<close>

lemma find_longest_match_cases:
  "\<exists>i j k. find_longest_match a b alo ahi blo bhi = (i, j, k) \<and> alo \<le> i \<and> blo \<le> j
      \<and> (k \<noteq> 0 \<longrightarrow> i + k \<le> ahi \<and> j + k \<le> bhi)"
proof -
  obtain i j k where eq: "find_longest_match a b alo ahi blo bhi = (i, j, k)"
    by (cases "find_longest_match a b alo ahi blo bhi") auto
  have "in_box alo ahi blo bhi (i, j, k)"
    using find_longest_match_bounds [of alo ahi blo bhi a b] by (simp only: eq)
  then have "alo \<le> i \<and> blo \<le> j \<and> (k \<noteq> 0 \<longrightarrow> i + k \<le> ahi \<and> j + k \<le> bhi)"
    by (simp add: in_box_def)
  with eq show ?thesis by blast
qed

lemma queue_loop_ends_within:
  "\<forall>(alo, ahi, blo, bhi) \<in> set queue. ahi \<le> la \<and> bhi \<le> lb \<Longrightarrow> ends_within la lb mb \<Longrightarrow>
   ends_within la lb (queue_loop a b queue mb)"
proof (induction a b queue mb rule: queue_loop.induct)
  case (1 a b matching_blocks)
  then show ?case by simp
next
  case (2 a b alo ahi blo bhi queue mb)
  obtain i j k where eq: "find_longest_match a b alo ahi blo bhi = (i, j, k)"
    and lo: "alo \<le> i" "blo \<le> j" and hi: "k \<noteq> 0 \<Longrightarrow> i + k \<le> ahi \<and> j + k \<le> bhi"
    using find_longest_match_cases [of a b alo ahi blo bhi] by blast
  have top: "ahi \<le> la" "bhi \<le> lb" using "2.prems"(1) by simp_all
  show ?case
  proof (cases "k = 0")
    case True
    have "ends_within la lb (queue_loop a b queue mb)"
      using "2.IH"(2) [OF eq [symmetric] refl] True "2.prems" by simp
    with eq True show ?thesis by simp
  next
    case False
    let ?q = "(if i + k < ahi \<and> j + k < bhi then [(i + k, ahi, j + k, bhi)] else [])
              @ (if alo < i \<and> blo < j then [(alo, i, blo, j)] else []) @ queue"
    have q: "\<forall>(alo, ahi, blo, bhi) \<in> set ?q. ahi \<le> la \<and> bhi \<le> lb"
      using "2.prems"(1) hi [OF False] top by auto
    have m: "ends_within la lb (mb @ [(i, j, k)])"
      using "2.prems"(2) hi [OF False] top by (auto simp: ends_within_def)
    have "ends_within la lb (queue_loop a b ?q (mb @ [(i, j, k)]))"
      using "2.IH"(1) [OF eq [symmetric] refl] False q m by simp
    with eq False show ?thesis by simp
  qed
qed

lemma starts_collapse:
  "(i, j, k) \<in> set (collapse (i1, j1, k1) bs) \<Longrightarrow>
   (i, j) = (i1, j1) \<or> (\<exists>k'. (i, j, k') \<in> set bs)"
  by (induction "(i1, j1, k1)" bs arbitrary: i1 j1 k1 rule: collapse.induct)
     (auto split: if_splits)

lemma get_matching_blocks_starts:
  assumes "(i, j, k) \<in> set (get_matching_blocks a b)"
  shows "i \<le> length a \<and> j \<le> length b"
proof -
  define mb where "mb = queue_loop a b [(0, length a, 0, length b)] []"
  have e: "ends_within (length a) (length b) mb"
    unfolding mb_def by (rule queue_loop_ends_within) (simp_all add: ends_within_def)
  have "get_matching_blocks a b = collapse (0, 0, 0) (sort mb) @ [(length a, length b, 0)]"
    by (simp only: get_matching_blocks_def Let_def mb_def)
  with assms have "(i, j, k) \<in> set (collapse (0, 0, 0) (sort mb)) \<or> (i, j, k) = (length a, length b, 0)"
    by auto
  then show ?thesis
  proof
    assume "(i, j, k) \<in> set (collapse (0, 0, 0) (sort mb))"
    from starts_collapse [OF this] have "(i, j) = (0, 0) \<or> (\<exists>k'. (i, j, k') \<in> set mb)"
      by simp
    with e show ?thesis by (auto simp: ends_within_def)
  next
    assume "(i, j, k) = (length a, length b, 0)"
    then show ?thesis by simp
  qed
qed

lemma blocks_loop_nonempty:
  "\<forall>(i, j, k) \<in> set blocks. i \<le> length str1 \<and> j \<le> length str2 \<Longrightarrow>
   (d1, d2) \<in> set (blocks_loop str1 str2 e1 e2 blocks) \<Longrightarrow> d1 \<noteq> [] \<or> d2 \<noteq> []"
proof (induction blocks arbitrary: e1 e2)
  case Nil
  then show ?case by simp
next
  case (Cons blk blocks)
  obtain i j k where blk: "blk = (i, j, k)" by (cases blk) auto
  from Cons.prems(1) blk have le: "i \<le> length str1" "j \<le> length str2" by simp_all
  from Cons.prems(2) blk
  consider "i > e1 \<or> j > e2" "(d1, d2) = (slice str1 e1 i, slice str2 e2 j)"
    | "(d1, d2) \<in> set (blocks_loop str1 str2 (i + k) (j + k) blocks)"
    by (auto split: if_splits)
  then show ?case
  proof cases
    case 1
    then show ?thesis using le by (auto simp: slice_def)
  next
    case 2
    then show ?thesis using Cons.IH [of "i + k" "j + k"] Cons.prems(1) by simp
  qed
qed

text \<open>
  C10. For all strings \<open>a\<close> and \<open>b\<close>, every span that \<open>find_differences\<close> returns has a segment
  that is not empty: a span is emitted only when a block starts behind the end of the
  previous one in \<open>a\<close> or in \<open>b\<close>, and every block starts inside its string.
\<close>

theorem find_differences_spans_nonempty:
  "\<forall>(d1, d2) \<in> set (find_differences a b). d1 \<noteq> [] \<or> d2 \<noteq> []"
proof -
  have "\<forall>(i, j, k) \<in> set (get_matching_blocks a b). i \<le> length a \<and> j \<le> length b"
    using get_matching_blocks_starts by blast
  then show ?thesis
    unfolding find_differences_def using blocks_loop_nonempty by blast
qed

theorem find_differences_spans_nonempty_witness:
  "find_differences ''Weight (kg)'' ''Weight(kgs)'' = [('' '', []), ([], ''s'')]
   \<and> '' '' \<noteq> ([]::string) \<and> ''s'' \<noteq> ([]::string)"
proof -
  have e: "find_differences ''Weight (kg)'' ''Weight(kgs)'' = [('' '', []), ([], ''s'')]"
    by code_simp
  show ?thesis
    using find_differences_spans_nonempty [of "''Weight (kg)''" "''Weight(kgs)''"]
    unfolding e by simp
qed

lemma lcs_Nil2 [simp]: "lcs xs [] = 0"
  by (cases xs) simp_all

lemma hd_lcs_suffixes: "hd (lcs_suffixes xs ys) = lcs xs ys"
  by (cases ys) simp_all

lemma lcs_row_suffixes: "lcs_row x ys (lcs_suffixes xs ys) = lcs_suffixes (x # xs) ys"
  by (induction ys) (simp_all add: Let_def hd_lcs_suffixes)

lemma lcs_suffixes_Nil: "lcs_suffixes [] ys = replicate (Suc (length ys)) 0"
  by (induction ys) simp_all

lemma lcs_rows_suffixes: "lcs_rows xs ys = lcs_suffixes xs ys"
  by (induction xs) (simp_all add: lcs_suffixes_Nil lcs_row_suffixes)

lemma matched_characters_lcs: "matched_characters a b = lcs a b"
  by (simp add: matched_characters_def lcs_rows_suffixes hd_lcs_suffixes)

lemma lcs_commute: "lcs xs ys = lcs ys xs"
  by (induction xs ys rule: lcs.induct) (simp_all add: max.commute)

lemma lcs_le_length: "lcs xs ys \<le> length xs"
  by (induction xs ys rule: lcs.induct) auto

lemma round_div_range:
  assumes n: "n \<le> 100 * d" and d: "0 < d"
  shows "0 \<le> round_div n d \<and> round_div n d \<le> 100"
proof -
  have "n div d \<le> (100 * d) div d" using n by (rule div_le_mono)
  then have q: "n div d \<le> 100" using d by simp
  show ?thesis
  proof (cases "n div d = 100")
    case True
    have "d * (n div d) + n mod d = n" by simp
    with True n have "n mod d = 0" by simp
    with True d show ?thesis by (simp add: round_div_def Let_def)
  next
    case False
    with q have "n div d < 100" by simp
    then show ?thesis by (auto simp: round_div_def Let_def)
  qed
qed

text \<open>
  C4. For all strings \<open>a\<close> and \<open>b\<close>, normalized or not, the score is an integer between 0
  and 100, and the score of \<open>a\<close> against \<open>b\<close> is the score of \<open>b\<close> against \<open>a\<close>.
\<close>

theorem fuzz_ratio_range_and_symmetry:
  "0 \<le> fuzz_ratio a b \<and> fuzz_ratio a b \<le> 100 \<and> fuzz_ratio a b = fuzz_ratio b a"
proof -
  have sym: "fuzz_ratio a b = fuzz_ratio b a"
    by (simp add: fuzz_ratio_def matched_characters_lcs lcs_commute [of a b] add.commute)
  have rng: "0 \<le> fuzz_ratio a b \<and> fuzz_ratio a b \<le> 100"
  proof (cases "length a + length b = 0")
    case True
    then show ?thesis by (simp add: fuzz_ratio_def)
  next
    case False
    have "lcs a b \<le> length a" by (rule lcs_le_length)
    moreover have "lcs a b \<le> length b"
      using lcs_le_length [of b a] by (simp add: lcs_commute [of a b])
    ultimately have "100 * (2 * matched_characters a b) \<le> 100 * (length a + length b)"
      by (simp add: matched_characters_lcs)
    from round_div_range [OF this] False show ?thesis
      by (simp add: fuzz_ratio_def Let_def)
  qed
  from rng sym show ?thesis by simp
qed

theorem fuzz_ratio_range_and_symmetry_witness:
  "fuzz_ratio ''tide'' ''diet'' = 50 \<and> fuzz_ratio ''diet'' ''tide'' = 50
   \<and> fuzz_ratio ''abab'' ''aab'' = 86 \<and> fuzz_ratio ''aab'' ''abab'' = 86"
proof -
  have "fuzz_ratio ''tide'' ''diet'' = 50" by code_simp
  moreover have "fuzz_ratio ''abab'' ''aab'' = 86" by code_simp
  ultimately show ?thesis
    using fuzz_ratio_range_and_symmetry [of "''tide''" "''diet''"]
      fuzz_ratio_range_and_symmetry [of "''abab''" "''aab''"]
    by simp
qed

section \<open>Idempotence of the Normalizer\<close>

lemma ws_simps [simp]: "ws []" "ws (c # W) = (is_space c \<and> ws W)" "ws (A @ B) = (ws A \<and> ws B)"
  by (auto simp: ws_def)

lemma next_of_regap [simp]: "next_of (regap h items) = next_of items"
  by (cases items) auto

lemma ex_rend: "\<exists>W items. ws W \<and> wf_items items \<and> rend W items = s"
proof (induction s)
  case Nil
  have "ws [] \<and> wf_items [] \<and> rend [] [] = []" by simp
  then show ?case by blast
next
  case (Cons c s)
  then obtain W items where r: "ws W" "wf_items items" "rend W items = s" by blast
  show ?case
  proof (cases "is_space c")
    case True
    with r have "ws (c # W) \<and> wf_items items \<and> rend (c # W) items = c # s"
      by (cases items) auto
    then show ?thesis by blast
  next
    case False
    with r have "ws [] \<and> wf_items ((c, W) # items) \<and> rend [] ((c, W) # items) = c # s"
      by simp
    then show ?thesis by blast
  qed
qed

lemma dropWhile_ws: "ws W \<Longrightarrow> dropWhile is_space (W @ u) = dropWhile is_space u"
  by (induction W) auto

lemma dropWhile_rend:
  "ws W \<Longrightarrow> wf_items items \<Longrightarrow> dropWhile is_space (rend W items) = rend [] items"
  by (cases items) (auto simp: dropWhile_ws dropWhile_eq_Nil_conv ws_def)

lemma dropWhile_ws_Nil: "ws W \<Longrightarrow> dropWhile is_space W = []"
  by (simp add: ws_def)

lemma sub_paren_ws: "ws W \<Longrightarrow> sub_paren p repl W = W"
proof (induction W)
  case Nil
  then show ?case by simp
next
  case (Cons c W)
  have d: "dropWhile is_space (c # W) = []"
    using Cons.prems by (rule dropWhile_ws_Nil)
  have "sub_paren p repl (c # W) = c # sub_paren p repl W"
    by (simp only: sub_paren.simps d list.case)
  with Cons show ?case by simp
qed

lemma sub_paren_run:
  "ws W \<Longrightarrow> \<not> is_space t \<Longrightarrow>
   sub_paren p repl (W @ t # u) =
     (if t = p then repl @ sub_paren p repl (dropWhile is_space u)
      else W @ t # sub_paren p repl u)"
proof (induction W)
  case Nil
  then show ?case by simp
next
  case (Cons c W)
  have d: "dropWhile is_space (c # W @ t # u) = t # u"
    using dropWhile_ws [OF Cons.prems(1), of "t # u"] Cons.prems(2) by simp
  have "sub_paren p repl (c # W @ t # u) =
         (if t = p then repl @ sub_paren p repl (dropWhile is_space u)
          else c # sub_paren p repl (W @ t # u))"
    by (simp only: sub_paren.simps d list.case)
  with Cons show ?case by simp
qed

lemma sub_spaces_ws: "ws W \<Longrightarrow> sub_spaces W = (if W = [] then [] else '' '')"
  by (cases W) (simp_all add: dropWhile_ws_Nil)

lemma sub_spaces_run:
  "ws W \<Longrightarrow> \<not> is_space t \<Longrightarrow>
   sub_spaces (W @ t # u) = (if W = [] then [] else '' '') @ t # sub_spaces u"
proof (cases W)
  case Nil
  assume "\<not> is_space t"
  with Nil show ?thesis by simp
next
  case (Cons c W')
  assume w: "ws W" and t: "\<not> is_space t"
  from w Cons have "ws W'" "is_space c" by simp_all
  then have "dropWhile is_space (W' @ t # u) = t # u"
    using dropWhile_ws [of W' "t # u"] t by simp
  with Cons \<open>is_space c\<close> t show ?thesis by simp
qed

lemma is_space_blank [simp]: "is_space (CHR '' '')"
  by (simp add: is_space_def)

lemma ws_h [simp]:
  "ws W \<Longrightarrow> ws (h3 p W n)" "ws W \<Longrightarrow> ws (h4 p W n)" "ws (h5 p W n)" "ws W \<Longrightarrow> ws (h6 p W n)"
  by (simp_all add: h3_def h4_def h5_def h6_def)

lemma h3_simps:
  "h3 p W (Some (CHR ''('')) = '' ''"
  "n \<noteq> Some (CHR ''('') \<Longrightarrow> h3 (Some (CHR ''('')) W n = []"
  "n \<noteq> Some (CHR ''('') \<Longrightarrow> p \<noteq> Some (CHR ''('') \<Longrightarrow> h3 p W n = W"
  by (simp_all add: h3_def)

lemma h4_simps:
  "h4 (Some (CHR '')'')) W n = '' ''"
  "p \<noteq> Some (CHR '')'') \<Longrightarrow> h4 p W (Some (CHR '')'')) = []"
  "p \<noteq> Some (CHR '')'') \<Longrightarrow> n \<noteq> Some (CHR '')'') \<Longrightarrow> h4 p W n = W"
  by (simp_all add: h4_def)

lemma h5_simps: "h5 p [] n = []" "W \<noteq> [] \<Longrightarrow> h5 p W n = '' ''"
  by (simp_all add: h5_def)

lemma h6_simps:
  "h6 None W n = []" "h6 p W None = []" "h6 (Some x) W (Some y) = W" "h6 p [] n = []"
  by (simp_all add: h6_def)

lemma hG_eq: "(\<lambda>p W n. h6 p (h5 p (h4 p (h3 p W n) n) n) n) = hG"
  by (intro ext) (simp add: hG_def)

lemma wf_regap: "wf_items items \<Longrightarrow> (\<And>p W n. ws W \<Longrightarrow> ws (h p W n)) \<Longrightarrow> wf_items (regap h items)"
  by (induction items) auto

lemma regap_regap: "regap h (regap h' items) = regap (\<lambda>p W n. h p (h' p W n) n) items"
  by (induction items) auto

lemma sub_lparen_rend:
  "ws W \<Longrightarrow> wf_items items \<Longrightarrow>
   sub_paren (CHR ''('') '' ('' (rend (if prev = Some (CHR ''('') then [] else W) items)
     = rend (h3 prev W (next_of items)) (regap h3 items)"
proof (induction items arbitrary: prev W)
  case Nil
  then show ?case by (cases "prev = Some (CHR ''('')") (simp_all add: sub_paren_ws h3_simps)
next
  case (Cons item items)
  obtain t W1 where item: "item = (t, W1)" by (cases item) auto
  from Cons.prems item have t: "\<not> is_space t" and w1: "ws W1" and wf: "wf_items items"
    by simp_all
  define X where "X = (if prev = Some (CHR ''('') then [] else W)"
  have x: "ws X" using Cons.prems(1) by (simp add: X_def)
  show ?case
  proof (cases "t = CHR ''(''")
    case True
    have "sub_paren (CHR ''('') '' ('' (rend [] items)
            = rend (h3 (Some t) W1 (next_of items)) (regap h3 items)"
      using Cons.IH [OF w1 wf, of "Some (CHR ''('')"] True by simp
    then show ?thesis
      using True x t w1 wf unfolding X_def [symmetric] item
      by (simp add: sub_paren_run dropWhile_rend h3_simps)
  next
    case False
    have "sub_paren (CHR ''('') '' ('' (rend W1 items)
            = rend (h3 (Some t) W1 (next_of items)) (regap h3 items)"
      using Cons.IH [OF w1 wf, of "Some t"] False by simp
    then show ?thesis
      using False x t unfolding item
      by (cases "prev = Some (CHR ''('')") (simp_all add: sub_paren_run h3_simps X_def)
  qed
qed

lemma sub_rparen_rend:
  "ws W \<Longrightarrow> wf_items items \<Longrightarrow>
   (if prev = Some (CHR '')'') then '' '' else [])
     @ sub_paren (CHR '')'') '') '' (rend (if prev = Some (CHR '')'') then [] else W) items)
     = rend (h4 prev W (next_of items)) (regap h4 items)"
proof (induction items arbitrary: prev W)
  case Nil
  then show ?case by (cases "prev = Some (CHR '')'')") (simp_all add: sub_paren_ws h4_simps)
next
  case (Cons item items)
  obtain t W1 where item: "item = (t, W1)" by (cases item) auto
  from Cons.prems item have t: "\<not> is_space t" and w1: "ws W1" and wf: "wf_items items"
    by simp_all
  define X where "X = (if prev = Some (CHR '')'') then [] else W)"
  have x: "ws X" using Cons.prems(1) by (simp add: X_def)
  show ?case
  proof (cases "t = CHR '')''")
    case True
    have "'' '' @ sub_paren (CHR '')'') '') '' (rend [] items)
            = rend (h4 (Some t) W1 (next_of items)) (regap h4 items)"
      using Cons.IH [OF w1 wf, of "Some (CHR '')'')"] True by simp
    then show ?thesis
      using True x t w1 wf unfolding X_def [symmetric] item
      by (cases "prev = Some (CHR '')'')") (simp_all add: sub_paren_run dropWhile_rend h4_simps X_def)
  next
    case False
    have "sub_paren (CHR '')'') '') '' (rend W1 items)
            = rend (h4 (Some t) W1 (next_of items)) (regap h4 items)"
      using Cons.IH [OF w1 wf, of "Some t"] False by simp
    then show ?thesis
      using False x t unfolding item
      by (cases "prev = Some (CHR '')'')") (simp_all add: sub_paren_run h4_simps X_def)
  qed
qed

lemma sub_spaces_rend:
  "ws W \<Longrightarrow> wf_items items \<Longrightarrow>
   sub_spaces (rend W items) = rend (h5 prev W (next_of items)) (regap h5 items)"
proof (induction items arbitrary: prev W)
  case Nil
  then show ?case by (cases "W = []") (simp_all add: sub_spaces_ws h5_simps)
next
  case (Cons item items)
  obtain t W1 where item: "item = (t, W1)" by (cases item) auto
  from Cons.prems item have t: "\<not> is_space t" and w1: "ws W1" and wf: "wf_items items"
    by simp_all
  show ?case
    using Cons.IH [OF w1 wf, of "Some t"] Cons.prems(1) t unfolding item
    by (cases "W = []") (simp_all add: sub_spaces_run h5_simps)
qed

lemma rstrip_ws: "ws W \<Longrightarrow> rstrip W = []"
  by (simp add: rstrip_def ws_def)

lemma rstrip_run: "\<not> is_space t \<Longrightarrow> rstrip (W @ t # u) = W @ t # rstrip u"
  by (simp add: rstrip_def dropWhile_append)

lemma rstrip_rend:
  "ws W \<Longrightarrow> wf_items items \<Longrightarrow>
   rstrip (rend W items) = rend (h6 (Some x) W (next_of items)) (regap h6 items)"
proof (induction items arbitrary: x W)
  case Nil
  then show ?case by (simp add: rstrip_ws h6_simps)
next
  case (Cons item items)
  obtain t W1 where item: "item = (t, W1)" by (cases item) auto
  from Cons.prems item have t: "\<not> is_space t" and w1: "ws W1" and wf: "wf_items items"
    by simp_all
  show ?case
    using Cons.IH [OF w1 wf, of t] t unfolding item
    by (cases items) (simp_all add: rstrip_run h6_simps)
qed

lemma str_strip_rend:
  assumes "ws W" and "wf_items items"
  shows "str_strip (rend W items) = rend [] (regap h6 items)"
proof -
  have "str_strip (rend W items) = rstrip (rend [] items)"
    using assms by (simp add: str_strip_def rstrip_def dropWhile_rend)
  also have "\<dots> = rend (h6 (Some (CHR ''x'')) [] (next_of items)) (regap h6 items)"
    using assms(2) by (intro rstrip_rend) simp_all
  also have "\<dots> = rend [] (regap h6 items)"
    by (cases items) (simp_all add: h6_simps)
  finally show ?thesis .
qed

lemma finish_rend:
  assumes "ws W" and "wf_items items"
  shows "finish (rend W items) = rend [] (regap hG items)"
proof -
  have 3: "sub_paren (CHR ''('') '' ('' (rend W items)
             = rend (h3 None W (next_of items)) (regap h3 items)"
    using sub_lparen_rend [OF assms, of None] by simp
  have wf3: "wf_items (regap h3 items)" using assms(2) by (rule wf_regap) simp
  have 4: "sub_paren (CHR '')'') '') '' (rend (h3 None W (next_of items)) (regap h3 items))
             = rend (h4 None (h3 None W (next_of items)) (next_of items)) (regap h4 (regap h3 items))"
    using sub_rparen_rend [OF _ wf3, of "h3 None W (next_of items)" None] assms(1) by simp
  have wf4: "wf_items (regap h4 (regap h3 items))" using wf3 by (rule wf_regap) simp
  have 5: "sub_spaces (rend (h4 None (h3 None W (next_of items)) (next_of items)) (regap h4 (regap h3 items)))
             = rend (h5 None (h4 None (h3 None W (next_of items)) (next_of items)) (next_of items))
                  (regap h5 (regap h4 (regap h3 items)))"
    using sub_spaces_rend [OF _ wf4, of _ None] assms(1) by simp
  have wf5: "wf_items (regap h5 (regap h4 (regap h3 items)))" using wf4 by (rule wf_regap) simp
  have 6: "str_strip (rend (h5 None (h4 None (h3 None W (next_of items)) (next_of items)) (next_of items))
                  (regap h5 (regap h4 (regap h3 items))))
             = rend [] (regap h6 (regap h5 (regap h4 (regap h3 items))))"
    by (rule str_strip_rend [OF _ wf5]) simp
  show ?thesis
    unfolding finish_def 3 4 5 6
    by (simp add: regap_regap hG_eq)
qed

lemma hG_idem: "hG p (hG p W n) n = hG p W n"
  by (simp add: hG_def h3_def h4_def h5_def h6_def)

lemma finish_finish: "finish (finish s) = finish s"
proof -
  obtain W items where r: "ws W" "wf_items items" "rend W items = s"
    using ex_rend by blast
  have wfG: "wf_items (regap hG items)"
    using r(2) by (rule wf_regap) (simp add: hG_def)
  have "finish s = rend [] (regap hG items)"
    using finish_rend [OF r(1,2)] r(3) by simp
  moreover have "finish (rend [] (regap hG items)) = rend [] (regap hG (regap hG items))"
    by (rule finish_rend [OF _ wfG]) simp
  ultimately show ?thesis by (simp add: regap_regap hG_idem)
qed

lemma char_facts [simp]:
  "\<not> is_digit (CHR ''.'')" "\<not> is_space (CHR ''.'')"
  "\<not> is_digit (CHR ''('')" "\<not> is_digit (CHR '')'')"
  "\<not> is_space (CHR ''('')" "\<not> is_space (CHR '')'')"
  by (simp_all add: is_digit_def is_space_def)

lemma space_not_digit: "is_space c \<Longrightarrow> \<not> is_digit c"
  unfolding is_space_def is_digit_def Let_def by arith

lemma sub_period_Cons:
  "sub_period pd (c # cs) =
     (if c = CHR ''.'' \<and> \<not> pd \<and> \<not> next_digit cs then sub_period (is_digit c) cs
      else c # sub_period (is_digit c) cs)"
  by (simp add: next_digit_def)

lemma sub_period_id: "dots_ok pd s \<Longrightarrow> sub_period pd s = s"
proof (induction s arbitrary: pd)
  case Nil
  show ?case by simp
next
  case (Cons c cs)
  from Cons.prems have k: "\<not> (c = CHR ''.'' \<and> \<not> pd \<and> \<not> next_digit cs)"
    and r: "dots_ok (is_digit c) cs" by auto
  show ?case
    using Cons.IH [OF r] k by (simp only: sub_period_Cons if_False)
qed

lemma dots_ok_mono: "dots_ok False s \<Longrightarrow> dots_ok pd s"
  by (cases s) simp_all

lemma next_digit_sub_period: "next_digit cs \<Longrightarrow> next_digit (sub_period pd cs)"
proof (cases cs)
  case Nil
  assume "next_digit cs"
  with Nil show ?thesis by (simp add: next_digit_def)
next
  case (Cons d ds)
  assume "next_digit cs"
  with Cons have d: "is_digit d" by (simp add: next_digit_def)
  then have "d \<noteq> CHR ''.''" by auto
  then have "sub_period pd (d # ds) = d # sub_period (is_digit d) ds"
    by (simp only: sub_period_Cons) simp
  with Cons d show ?thesis by (simp add: next_digit_def)
qed

lemma dots_ok_sub_period: "dots_ok pd (sub_period pd s)"
proof (induction s arbitrary: pd)
  case Nil
  show ?case by simp
next
  case (Cons c cs)
  show ?case
  proof (cases "c = CHR ''.'' \<and> \<not> pd \<and> \<not> next_digit cs")
    case True
    then have "sub_period pd (c # cs) = sub_period False cs"
      by (simp only: sub_period_Cons) simp
    with Cons [of False] show ?thesis by (simp add: dots_ok_mono)
  next
    case False
    then have e: "sub_period pd (c # cs) = c # sub_period (is_digit c) cs"
      by (simp only: sub_period_Cons if_False)
    have "c = CHR ''.'' \<longrightarrow> pd \<or> next_digit (sub_period (is_digit c) cs)"
      using False next_digit_sub_period by blast
    with Cons [of "is_digit c"] show ?thesis
      unfolding e by simp
  qed
qed

lemma dots_ok_ws: "ws W \<Longrightarrow> dots_ok pd W"
  by (induction W arbitrary: pd) auto

lemma dots_ok_run:
  "ws W \<Longrightarrow>
   dots_ok pd (W @ t # u) =
     ((t = CHR ''.'' \<longrightarrow> (W = [] \<and> pd) \<or> next_digit u) \<and> dots_ok (is_digit t) u)"
proof (induction W arbitrary: pd)
  case Nil
  show ?case by simp
next
  case (Cons c W)
  then have c: "is_space c" "ws W" by simp_all
  have nd: "next_digit (W @ t # u) = (W = [] \<and> is_digit t)"
    using c(2) by (cases W) (auto simp: next_digit_def space_not_digit)
  show ?case
    using Cons.IH [OF c(2), of "is_digit c"] c(1) nd
    by (auto simp: space_not_digit)
qed

lemma next_digit_rend:
  "ws W \<Longrightarrow> next_digit (rend W items) = (W = [] \<and> (case next_of items of None \<Rightarrow> False | Some t \<Rightarrow> is_digit t))"
proof (cases W)
  case Nil
  then show ?thesis by (cases items) (auto simp: next_digit_def)
next
  case (Cons c W')
  assume "ws W"
  with Cons have "is_space c" by simp
  then have "\<not> is_digit c" by (rule space_not_digit)
  with Cons show ?thesis by (cases items) (auto simp: next_digit_def)
qed

lemma digit_not_paren: "is_digit d \<Longrightarrow> d \<noteq> CHR ''('' \<and> d \<noteq> CHR '')'' \<and> d \<noteq> CHR ''.''"
  by auto

lemma hG_digit_dot: "is_digit d \<Longrightarrow> hG (Some d) [] (Some (CHR ''.'')) = []"
  using digit_not_paren [of d] by (simp add: hG_def h3_def h4_def h5_def h6_def)

lemma hG_dot_digit: "is_digit d \<Longrightarrow> hG (Some (CHR ''.'')) [] (Some d) = []"
  using digit_not_paren [of d] by (simp add: hG_def h3_def h4_def h5_def h6_def)

lemma dots_ok_regap:
  "ws W \<Longrightarrow> wf_items items \<Longrightarrow> dots_ok (pdig prev) (rend W items) \<Longrightarrow>
   dots_ok (pdig prev) (rend (hG prev W (next_of items)) (regap hG items))"
proof (induction items arbitrary: prev W)
  case Nil
  have "ws (hG prev W None)" using Nil.prems(1) by (simp add: hG_def)
  then show ?case by (simp add: dots_ok_ws)
next
  case (Cons item items)
  obtain t W1 where item: "item = (t, W1)" by (cases item) auto
  from Cons.prems item have t: "\<not> is_space t" and w1: "ws W1" and wf: "wf_items items"
    by simp_all
  define u where "u = rend W1 items"
  define g where "g = hG (Some t) W1 (next_of items)"
  define u' where "u' = rend g (regap hG items)"
  define W' where "W' = hG prev W (Some t)"
  have wW': "ws W'" using Cons.prems(1) by (simp add: hG_def W'_def)
  have wg: "ws g" using w1 by (simp add: hG_def g_def)
  have "dots_ok (pdig prev) (W @ t # u)"
    using Cons.prems(3) item by (simp add: u_def)
  then have o: "t = CHR ''.'' \<longrightarrow> (W = [] \<and> pdig prev) \<or> next_digit u"
    and ou: "dots_ok (is_digit t) u"
    using dots_ok_run [OF Cons.prems(1), of "pdig prev" t u] by simp_all
  have du': "dots_ok (is_digit t) u'"
    using Cons.IH [OF w1 wf, of "Some t"] ou by (simp add: u_def u'_def g_def)
  have n: "(W' = [] \<and> pdig prev) \<or> next_digit u'" if dot: "t = CHR ''.''"
  proof -
    from o dot consider "W = []" "pdig prev" | "next_digit u" by blast
    then show ?thesis
    proof cases
      case 1
      then obtain d where "prev = Some d" "is_digit d" by (cases prev) auto
      with 1 dot have "W' = []" by (simp add: W'_def hG_digit_dot)
      with 1 show ?thesis by simp
    next
      case 2
      then have "W1 = []" and nx: "case next_of items of None \<Rightarrow> False | Some t \<Rightarrow> is_digit t"
        using next_digit_rend [OF w1, of items] by (simp_all add: u_def)
      from nx obtain d where d: "next_of items = Some d" "is_digit d"
        by (cases "next_of items") auto
      have "g = []" using \<open>W1 = []\<close> d dot by (simp add: g_def hG_dot_digit)
      then have "next_digit u'"
        using next_digit_rend [OF wg, of "regap hG items"] d by (simp add: u'_def)
      then show ?thesis by simp
    qed
  qed
  have "dots_ok (pdig prev) (W' @ t # u')"
    using dots_ok_run [OF wW', of "pdig prev" t u'] du' n by blast
  then show ?case
    by (simp add: item W'_def u'_def g_def)
qed

lemma lower_chr_idem: "lower_chr (lower_chr c) = lower_chr c"
proof -
  define n where "n = (of_char c :: nat)"
  show ?thesis
  proof (cases "(65 \<le> n \<and> n \<le> 90) \<or> (192 \<le> n \<and> n \<le> 214) \<or> (216 \<le> n \<and> n \<le> 222)")
    case True
    then have l: "lower_chr c = char_of (n + 32)"
      by (simp add: lower_chr_def n_def [symmetric])
    from True have m: "(of_char (char_of (n + 32) :: char) :: nat) = n + 32"
      by auto
    have "\<not> ((65 \<le> n + 32 \<and> n + 32 \<le> 90) \<or> (192 \<le> n + 32 \<and> n + 32 \<le> 214)
              \<or> (216 \<le> n + 32 \<and> n + 32 \<le> 222))"
      using True by arith
    then have "lower_chr (char_of (n + 32)) = char_of (n + 32)"
      unfolding lower_chr_def m Let_def by (simp only: if_False)
    with l show ?thesis by simp
  next
    case False
    then have "lower_chr c = c"
      unfolding lower_chr_def n_def [symmetric] Let_def by (simp only: if_False)
    then show ?thesis by simp
  qed
qed

lemma lower_chr_fixed [simp]:
  "lower_chr (CHR '' '') = CHR '' ''" "lower_chr (CHR ''('') = CHR ''(''"
  "lower_chr (CHR '')'') = CHR '')''"
  by (simp_all add: lower_chr_def)

lemma set_sub_period: "set (sub_period pd s) \<subseteq> set s"
proof (induction s arbitrary: pd)
  case Nil
  show ?case by simp
next
  case (Cons c cs)
  have "set (sub_period pd (c # cs)) \<subseteq> insert c (set (sub_period (is_digit c) cs))"
    by (simp only: sub_period_Cons) auto
  with Cons [of "is_digit c"] show ?case by auto
qed

lemma set_sub_paren: "set (sub_paren p repl s) \<subseteq> set s \<union> set repl"
proof (induction p repl s rule: sub_paren.induct)
  case (1 p repl)
  show ?case by simp
next
  case (2 p repl c cs)
  show ?case
  proof (cases "dropWhile is_space (c # cs)")
    case Nil
    have "sub_paren p repl (c # cs) = c # sub_paren p repl cs"
      by (simp only: sub_paren.simps Nil list.case)
    with "2.IH"(1) [OF Nil] show ?thesis by auto
  next
    case (Cons d rest)
    have sub: "set (dropWhile is_space rest) \<subseteq> set (c # cs)"
    proof -
      have "set (dropWhile is_space rest) \<subseteq> set rest" by (auto dest: set_dropWhileD)
      also have "\<dots> \<subseteq> set (dropWhile is_space (c # cs))" unfolding Cons by auto
      also have "\<dots> \<subseteq> set (c # cs)" by (auto dest: set_dropWhileD)
      finally show ?thesis .
    qed
    show ?thesis
    proof (cases "d = p")
      case True
      have "sub_paren p repl (c # cs) = repl @ sub_paren p repl (dropWhile is_space rest)"
        by (simp only: sub_paren.simps Cons list.case True refl if_True)
      with "2.IH"(2) [OF Cons True] sub show ?thesis by auto
    next
      case False
      have "sub_paren p repl (c # cs) = c # sub_paren p repl cs"
        by (simp only: sub_paren.simps Cons list.case False if_False)
      with "2.IH"(3) [OF Cons False] show ?thesis by auto
    qed
  qed
qed

lemma set_sub_spaces: "set (sub_spaces s) \<subseteq> set s \<union> {CHR '' ''}"
proof (induction s rule: sub_spaces.induct)
  case 1
  show ?case by simp
next
  case (2 c cs)
  show ?case
  proof (cases "is_space c")
    case True
    have "set (dropWhile is_space cs) \<subseteq> set cs" by (auto dest: set_dropWhileD)
    with "2.IH"(1) [OF True] True show ?thesis by auto
  next
    case False
    with "2.IH"(2) [OF False] show ?thesis by auto
  qed
qed

lemma set_str_strip: "set (str_strip s) \<subseteq> set s"
  by (auto simp: str_strip_def dest!: set_dropWhileD)

lemma set_finish: "set (finish s) \<subseteq> set s \<union> {CHR '' '', CHR ''('', CHR '')''}"
proof -
  have "set (finish s) \<subseteq> set (sub_spaces (sub_paren (CHR '')'') '') '' (sub_paren (CHR ''('') '' ('' s)))"
    unfolding finish_def by (rule set_str_strip)
  also have "\<dots> \<subseteq> set (sub_paren (CHR '')'') '') '' (sub_paren (CHR ''('') '' ('' s)) \<union> {CHR '' ''}"
    by (rule set_sub_spaces)
  also have "\<dots> \<subseteq> set (sub_paren (CHR ''('') '' ('' s) \<union> set '') '' \<union> {CHR '' ''}"
    using set_sub_paren [of "CHR '')''" "'') ''" "sub_paren (CHR ''('') '' ('' s"] by auto
  also have "\<dots> \<subseteq> set s \<union> set '' ('' \<union> set '') '' \<union> {CHR '' ''}"
    using set_sub_paren [of "CHR ''(''" "'' (''" s] by auto
  finally show ?thesis by auto
qed

lemma h6_hG: "(\<lambda>p W n. h6 p (hG p W n) n) = hG"
  by (intro ext) (simp add: hG_def h6_def)

lemma normalize_str_finish:
  "normalize_str s = finish (sub_period False (str_strip (str_lower s)))"
  by (simp add: normalize_str_def finish_def Let_def)

lemma normalize_str_idem: "normalize_str (normalize_str s) = normalize_str s"
proof -
  define x where "x = sub_period False (str_strip (str_lower s))"
  define t where "t = finish x"
  obtain W items where r: "ws W" "wf_items items" "rend W items = x"
    using ex_rend by blast
  have wfG: "wf_items (regap hG items)"
    using r(2) by (rule wf_regap) (simp add: hG_def)
  have t: "t = rend [] (regap hG items)"
    using finish_rend [OF r(1,2)] r(3) by (simp add: t_def)
  have low: "str_lower t = t"
  proof -
    have "lower_chr c = c" if "c \<in> set t" for c
    proof -
      from that set_finish [of x] have "c \<in> set x \<or> c \<in> {CHR '' '', CHR ''('', CHR '')''}"
        by (auto simp: t_def)
      then show ?thesis
      proof
        assume "c \<in> set x"
        then have "c \<in> set (str_lower s)"
          using set_sub_period [of False "str_strip (str_lower s)"] set_str_strip [of "str_lower s"]
          by (auto simp: x_def)
        then obtain c' where "c = lower_chr c'" by (auto simp: str_lower_def)
        then show ?thesis by (simp add: lower_chr_idem)
      next
        assume "c \<in> {CHR '' '', CHR ''('', CHR '')''}"
        then show ?thesis by auto
      qed
    qed
    then show ?thesis by (simp add: str_lower_def map_idI)
  qed
  have strip: "str_strip t = t"
    unfolding t using str_strip_rend [OF _ wfG, of "[]"] by (simp add: regap_regap h6_hG)
  have dots: "sub_period False t = t"
  proof -
    have "dots_ok False x" unfolding x_def by (rule dots_ok_sub_period)
    then have "dots_ok (pdig None) (rend W items)" using r(3) by simp
    from dots_ok_regap [OF r(1,2) this]
    have "dots_ok False (rend (hG None W (next_of items)) (regap hG items))" by simp
    moreover have "hG None W (next_of items) = []" by (simp add: hG_def h6_def)
    ultimately have "dots_ok False t" by (simp add: t)
    then show ?thesis by (rule sub_period_id)
  qed
  have "normalize_str s = t" by (simp add: normalize_str_finish x_def t_def)
  moreover have "normalize_str t = finish t"
    by (simp add: normalize_str_finish low strip dots)
  moreover have "finish t = t" unfolding t_def by (rule finish_finish)
  ultimately show ?thesis by simp
qed

text \<open>
  C6. For every string label \<open>L\<close>, normalizing the normal form of \<open>L\<close> gives the normal
  form of \<open>L\<close> again.
\<close>

theorem normalize_text_idempotent:
  "normalize_text (PStr (normalize_text (PStr L))) = normalize_text (PStr L)"
  by (simp add: normalize_text_def normalize_str_idem)

theorem normalize_text_idempotent_witness:
  "normalize_text (PStr ''  Net.Weight( KG ). 3.5'') = ''netweight (kg) 3.5''
   \<and> normalize_text (PStr ''netweight (kg) 3.5'') = ''netweight (kg) 3.5''"
proof -
  have e: "normalize_text (PStr ''  Net.Weight( KG ). 3.5'') = ''netweight (kg) 3.5''"
    by code_simp
  show ?thesis
    using normalize_text_idempotent [of "''  Net.Weight( KG ). 3.5''"] unfolding e by simp
qed

end
